theory Spec2Isabelle
  imports Main "HOL-Library.Sublist"
begin

section \<open>The chat route (app/routes/api.chat.ts)\<close>

text \<open>
  A shallow embedding of the chat action of \<^verbatim>\<open>app/routes/api.chat.ts\<close>: the cookie parser,
  the usage accumulator, the callbacks \<^verbatim>\<open>onStepFinish\<close> and \<^verbatim>\<open>onFinish\<close> handed to the model
  call, the body of \<^verbatim>\<open>execute\<close>, the error classifier \<^verbatim>\<open>onError\<close> and the \<^verbatim>\<open>catch\<close> block of
  \<^verbatim>\<open>chatAction\<close>. Logging and the stall monitor (\<^verbatim>\<open>StreamRecoveryManager\<close>, a timer that only
  logs) are left out: they have no effect on what the route returns or writes.
\<close>

subsection \<open>Strings\<close>

text \<open>
  \<^verbatim>\<open>String.prototype.includes\<close>: the needle occurs as a contiguous run, at some position.
  Matching is by character, case-sensitive.
\<close>

fun str_includes :: "'a list \<Rightarrow> 'a list \<Rightarrow> bool" where
  "str_includes [] sub = (sub = [])"
| "str_includes (c # cs) sub = (prefix sub (c # cs) \<or> str_includes cs sub)"

subsection \<open>Thrown values\<close>

text \<open>
  The route reads four properties of a caught value (typed \<^verbatim>\<open>any\<close>): \<^verbatim>\<open>message\<close>,
  \<^verbatim>\<open>statusCode\<close>, \<^verbatim>\<open>isRetryable\<close> and \<^verbatim>\<open>provider\<close>. A property that is absent reads as
  \<^verbatim>\<open>undefined\<close>, here \<open>None\<close>.
\<close>

record thrown =
  error_name :: string
  error_message :: "string option"
  error_statusCode :: "int option"
  error_isRetryable :: "bool option"
  error_provider :: "string option"

definition Error :: "string \<Rightarrow> thrown" where
  "Error msg = \<lparr>error_name = ''Error'', error_message = Some msg, error_statusCode = None,
     error_isRetryable = None, error_provider = None\<rparr>"

text \<open>\<^verbatim>\<open>s || d\<close> for a string-or-undefined \<open>s\<close>: the empty string is falsy.\<close>

definition str_or :: "string option \<Rightarrow> string \<Rightarrow> string" where
  "str_or s d = (case s of None \<Rightarrow> d | Some v \<Rightarrow> if v = [] then d else v)"

subsection \<open>The error classifier of the open stream\<close>








subsection \<open>JavaScript strings as code units, for the cookie parser\<close>

text \<open>
  \<^verbatim>\<open>decodeURIComponent\<close> can produce any UTF-16 code unit, so the cookie parser works on
  lists of code units (numbers below 65536). \<open>js\<close> writes an ASCII literal as code units.
\<close>

type_synonym jsstring = "nat list"

definition js :: "string \<Rightarrow> jsstring" where
  "js s = map of_char s"

text \<open>\<^verbatim>\<open>String.prototype.trim\<close> strips WhiteSpace and LineTerminator code units at both ends.\<close>

definition is_ws :: "nat \<Rightarrow> bool" where
  "is_ws c = (c = 9 \<or> c = 10 \<or> c = 11 \<or> c = 12 \<or> c = 13 \<or> c = 32 \<or> c = 160 \<or> c = 5760
     \<or> (8192 \<le> c \<and> c \<le> 8202) \<or> c = 8232 \<or> c = 8233 \<or> c = 8239 \<or> c = 8287 \<or> c = 12288
     \<or> c = 65279)"

definition trim :: "jsstring \<Rightarrow> jsstring" where
  "trim s = rev (dropWhile is_ws (rev (dropWhile is_ws s)))"

text \<open>
  \<^verbatim>\<open>s.split(sep)\<close> for a one-character separator: the pieces between the separators, in
  order; never an empty array (\<^verbatim>\<open>''.split(';')\<close> is \<^verbatim>\<open>['']\<close>).
\<close>

fun split_on :: "'a \<Rightarrow> 'a list \<Rightarrow> 'a list list" where
  "split_on sep [] = [[]]"
| "split_on sep (c # cs) =
     (if c = sep then [] # split_on sep cs
      else (case split_on sep cs of [] \<Rightarrow> [[c]] | p # ps \<Rightarrow> (c # p) # ps))"

text \<open>\<^verbatim>\<open>parts.join(sep)\<close>.\<close>

fun join :: "'a list \<Rightarrow> 'a list list \<Rightarrow> 'a list" where
  "join sep [] = []"
| "join sep [p] = p"
| "join sep (p # q # ps) = p @ sep @ join sep (q # ps)"

subsection \<open>decodeURIComponent\<close>

text \<open>
  The built-in, after ECMAScript's Decode with an empty set of preserved escapes. Every
  \<^verbatim>\<open>%\<close> must be followed by two hexadecimal digits; an escaped octet below 128 is that
  character; an escaped octet from 128 must start a run of escapes that is the UTF-8
  encoding of one code point (no overlong form, no surrogate, at most U+10FFFF), which is
  appended as one or two UTF-16 code units. Anything else throws URIError, here \<open>None\<close>.
  The scan is written in two passes (escapes first, UTF-8 second); the built-in makes one
  pass and throws at the first defect, which gives the same result, as there is one kind
  of error and an escape always takes three code units.
\<close>

definition hex_val :: "nat \<Rightarrow> nat option" where
  "hex_val c =
     (if 48 \<le> c \<and> c \<le> 57 then Some (c - 48)
      else if 65 \<le> c \<and> c \<le> 70 then Some (c - 55)
      else if 97 \<le> c \<and> c \<le> 102 then Some (c - 87)
      else None)"

datatype tok = Lit nat | Esc nat

fun percent_tokens :: "jsstring \<Rightarrow> tok list option" where
  "percent_tokens [] = Some []"
| "percent_tokens (c # cs) =
     (if c = 37 then
        (case cs of
           h1 # h2 # rest \<Rightarrow>
             (case hex_val h1 of
                None \<Rightarrow> None
              | Some a \<Rightarrow>
                  (case hex_val h2 of
                     None \<Rightarrow> None
                   | Some b \<Rightarrow> map_option (Cons (Esc (16 * a + b))) (percent_tokens rest)))
         | _ \<Rightarrow> None)
      else map_option (Cons (Lit c)) (percent_tokens cs))"

definition cont_byte :: "nat \<Rightarrow> bool" where
  "cont_byte b = (128 \<le> b \<and> b \<le> 191)"

definition second_ok :: "nat \<Rightarrow> nat \<Rightarrow> bool" where
  "second_ok b1 b2 =
     (if b1 = 224 then 160 \<le> b2 \<and> b2 \<le> 191
      else if b1 = 237 then 128 \<le> b2 \<and> b2 \<le> 159
      else if b1 = 240 then 144 \<le> b2 \<and> b2 \<le> 191
      else if b1 = 244 then 128 \<le> b2 \<and> b2 \<le> 143
      else cont_byte b2)"

definition utf16_units :: "nat \<Rightarrow> jsstring" where
  "utf16_units cp =
     (if cp < 65536 then [cp]
      else [55296 + (cp - 65536) div 1024, 56320 + (cp - 65536) mod 1024])"

fun utf8_units :: "tok list \<Rightarrow> jsstring option" where
  "utf8_units [] = Some []"
| "utf8_units (Lit c # ts) = map_option (Cons c) (utf8_units ts)"
| "utf8_units (Esc b # ts) =
     (if b < 128 then map_option (Cons b) (utf8_units ts)
      else if 194 \<le> b \<and> b \<le> 223 then
        (case ts of
           Esc b2 # r \<Rightarrow>
             if cont_byte b2
             then map_option (Cons ((b - 192) * 64 + (b2 - 128))) (utf8_units r)
             else None
         | _ \<Rightarrow> None)
      else if 224 \<le> b \<and> b \<le> 239 then
        (case ts of
           Esc b2 # Esc b3 # r \<Rightarrow>
             if second_ok b b2 \<and> cont_byte b3
             then map_option (Cons ((b - 224) * 4096 + (b2 - 128) * 64 + (b3 - 128))) (utf8_units r)
             else None
         | _ \<Rightarrow> None)
      else if 240 \<le> b \<and> b \<le> 244 then
        (case ts of
           Esc b2 # Esc b3 # Esc b4 # r \<Rightarrow>
             if second_ok b b2 \<and> cont_byte b3 \<and> cont_byte b4
             then map_option
                    (append (utf16_units ((b - 240) * 262144 + (b2 - 128) * 4096
                                          + (b3 - 128) * 64 + (b4 - 128))))
                    (utf8_units r)
             else None
         | _ \<Rightarrow> None)
      else None)"

definition decodeURIComponent :: "jsstring \<Rightarrow> jsstring option" where
  "decodeURIComponent s = Option.bind (percent_tokens s) utf8_units"

subsection \<open>parseCookies\<close>

definition URIError :: thrown where
  "URIError = \<lparr>error_name = ''URIError'', error_message = Some ''URI malformed'',
     error_statusCode = None, error_isRetryable = None, error_provider = None\<rparr>"

text \<open>
  The cookie jar is a plain object: its own properties are a map from names to values.
  \<^verbatim>\<open>cookies[k] = v\<close> creates or overwrites the property \<open>k\<close>, except for the name
  \<^verbatim>\<open>__proto__\<close>, where the assignment reaches the setter inherited from Object.prototype,
  which ignores a string and adds no property.
\<close>

type_synonym cookies = "jsstring \<rightharpoonup> jsstring"

definition set_cookie :: "cookies \<Rightarrow> jsstring \<Rightarrow> jsstring \<Rightarrow> cookies" where
  "set_cookie m k v = (if k = js ''__proto__'' then m else m(k \<mapsto> v))"

text \<open>
  The body of the \<^verbatim>\<open>forEach\<close>: \<^verbatim>\<open>[name, ...rest] = item.split('=')\<close>, then
  \<^verbatim>\<open>if (name && rest)\<close>, where \<open>rest\<close> is an array and so always truthy, and \<open>name\<close> is
  truthy when it is not empty. 61 is \<^verbatim>\<open>=\<close>.
\<close>

definition parse_item :: "jsstring \<Rightarrow> cookies \<Rightarrow> thrown + cookies" where
  "parse_item item cookies =
     (case split_on 61 item of
        [] \<Rightarrow> Inr cookies
      | name # rest \<Rightarrow>
          if name \<noteq> [] then
            (case decodeURIComponent (trim name) of
               None \<Rightarrow> Inl URIError
             | Some decodedName \<Rightarrow>
                 (case decodeURIComponent (trim (join [61] rest)) of
                    None \<Rightarrow> Inl URIError
                  | Some decodedValue \<Rightarrow> Inr (set_cookie cookies decodedName decodedValue)))
          else Inr cookies)"

fun parse_items :: "jsstring list \<Rightarrow> cookies \<Rightarrow> thrown + cookies" where
  "parse_items [] cookies = Inr cookies"
| "parse_items (item # items) cookies =
     (case parse_item item cookies of
        Inl e \<Rightarrow> Inl e
      | Inr cookies' \<Rightarrow> parse_items items cookies')"

text \<open>59 is \<^verbatim>\<open>;\<close>.\<close>

definition parseCookies :: "jsstring \<Rightarrow> thrown + cookies" where
  "parseCookies cookieHeader = parse_items (map trim (split_on 59 cookieHeader)) Map.empty"

subsection \<open>Token usage\<close>

text \<open>
  A usage object as a model call reports it: a map from its own property names to their
  values, each a number, NaN or \<^verbatim>\<open>undefined\<close> (the library types the counts as
  \<^verbatim>\<open>number | undefined\<close>). Token counts are integers far below \<open>2^53\<close>, where the
  arithmetic of JavaScript numbers is that of the integers.
\<close>

datatype count = Num int | NaN | Undef

type_synonym usage = "string \<rightharpoonup> count"

text \<open>\<^verbatim>\<open>'k' in usage\<close> and \<^verbatim>\<open>usage.k\<close>.\<close>

definition has_prop :: "usage \<Rightarrow> string \<Rightarrow> bool" where
  "has_prop u k = (u k \<noteq> None)"

definition get_prop :: "usage \<Rightarrow> string \<Rightarrow> count" where
  "get_prop u k = (case u k of None \<Rightarrow> Undef | Some v \<Rightarrow> v)"

text \<open>\<^verbatim>\<open>a + b\<close> on such values: a number when both are numbers, NaN otherwise.\<close>

definition js_plus :: "count \<Rightarrow> count \<Rightarrow> count" where
  "js_plus a b = (case a of Num x \<Rightarrow> (case b of Num y \<Rightarrow> Num (x + y) | _ \<Rightarrow> NaN) | _ \<Rightarrow> NaN)"

text \<open>\<^verbatim>\<open>v || 0\<close>: 0, NaN and \<^verbatim>\<open>undefined\<close> are falsy.\<close>

definition or_zero :: "count \<Rightarrow> int" where
  "or_zero v = (case v of Num n \<Rightarrow> n | _ \<Rightarrow> 0)"

definition promptTokens_of :: "usage \<Rightarrow> count" where
  "promptTokens_of u =
     (if has_prop u ''promptTokens'' then get_prop u ''promptTokens''
      else if has_prop u ''inputTokens'' then get_prop u ''inputTokens''
      else Num 0)"

definition completionTokens_of :: "usage \<Rightarrow> count" where
  "completionTokens_of u =
     (if has_prop u ''completionTokens'' then get_prop u ''completionTokens''
      else if has_prop u ''outputTokens'' then get_prop u ''outputTokens''
      else Num 0)"

definition totalTokens_of :: "usage \<Rightarrow> count" where
  "totalTokens_of u =
     (if has_prop u ''totalTokens'' then get_prop u ''totalTokens''
      else js_plus (promptTokens_of u) (completionTokens_of u))"

record usage_totals =
  completionTokens :: int
  promptTokens :: int
  totalTokens :: int

text \<open>
  The accumulation written out three times in the source, in the \<^verbatim>\<open>onFinish\<close> of
  \<^verbatim>\<open>createSummary\<close>, of \<^verbatim>\<open>selectContext\<close> and of the generation call, under
  \<^verbatim>\<open>if (usage)\<close>.
\<close>

definition add_usage :: "usage option \<Rightarrow> usage_totals \<Rightarrow> usage_totals" where
  "add_usage usage cumulativeUsage =
     (case usage of
        None \<Rightarrow> cumulativeUsage
      | Some u \<Rightarrow>
          \<lparr>completionTokens = completionTokens cumulativeUsage + or_zero (completionTokens_of u),
           promptTokens = promptTokens cumulativeUsage + or_zero (promptTokens_of u),
           totalTokens = totalTokens cumulativeUsage + or_zero (totalTokens_of u)\<rparr>)"

subsection \<open>Messages, tool calls, events\<close>

datatype part = TextPart string | OtherPart string

record ui_message =
  msg_id :: string
  msg_role :: string
  msg_parts :: "part list"

datatype core_content = Text string | Parts "part list"

record core_message =
  role :: string
  content :: core_content

text \<open>A file map, as the list of its entries in key order; \<^verbatim>\<open>Object.keys\<close> is \<open>map fst\<close>.\<close>

type_synonym filemap = "(string \<times> string) list"

text \<open>
  A value of unknown type, as the arguments of a tool call are. A property that is absent
  reads as \<^verbatim>\<open>undefined\<close>. Numbers are integers here.
\<close>

datatype jsval =
    JUndefined
  | JNull
  | JBool bool
  | JNumber int
  | JString string
  | JArray "jsval list"
  | JObject "(string \<times> jsval) list"

fun truthy :: "jsval \<Rightarrow> bool" where
  "truthy JUndefined = False"
| "truthy JNull = False"
| "truthy (JBool b) = b"
| "truthy (JNumber n) = (n \<noteq> 0)"
| "truthy (JString s) = (s \<noteq> [])"
| "truthy (JArray xs) = True"
| "truthy (JObject kvs) = True"

text \<open>\<^verbatim>\<open>a || b\<close>.\<close>

definition js_or :: "jsval \<Rightarrow> jsval \<Rightarrow> jsval" where
  "js_or a b = (if truthy a then a else b)"

record tool_call =
  toolCallId :: string
  toolName :: string
  input :: jsval
  args :: jsval

datatype event =
    Progress string string nat string
  | UsageEvent usage_totals
  | ChatSummary string "string option"
  | CodeContext "string list"

text \<open>
  The arguments of a \<^verbatim>\<open>streamText\<close> call that the route computes. The others (\<open>env\<close>,
  \<open>options\<close>, \<open>apiKeys\<close>, \<open>files\<close>, \<open>providerSettings\<close>, \<open>promptId\<close>,
  \<open>contextOptimization\<close>, \<open>chatMode\<close>, \<open>designScheme\<close>) are handed over as received, the
  same in every call.
\<close>

record stream_call =
  call_messages :: "core_message list"
  call_contextFiles :: "filemap option"
  call_summary :: "string option"
  call_messageSliceId :: nat

text \<open>
  What the route does to its collaborators, in order: a write to the client stream, a call
  of the tool-call mediator, a model call, the merge of a model call's stream into the
  client stream.
\<close>

datatype effect =
    Write event
  | ProcessToolInvocations "ui_message list"
  | ProcessToolCall string string jsval
  | CreateSummary "core_message list"
  | SelectContext "core_message list" string
  | StreamText stream_call
  | Merge

subsection \<open>Collaborators\<close>

text \<open>
  Constants and functions that the route imports and whose code is elsewhere, taken as
  parameters. \<open>extractPropertiesFromMessage\<close> receives \<^verbatim>\<open>convertToCoreMessages([m])[0]\<close>,
  which is \<^verbatim>\<open>undefined\<close> (\<open>None\<close>) when the conversion returns no message.
\<close>

record env =
  MAX_RESPONSE_SEGMENTS :: nat
  CONTINUE_PROMPT :: string
  WORK_DIR :: string
  getFilePaths :: "filemap \<Rightarrow> string list"
  processToolInvocations :: "ui_message list \<Rightarrow> ui_message list"
  convertToCoreMessages :: "ui_message list \<Rightarrow> core_message list"
  extractPropertiesFromMessage :: "core_message option \<Rightarrow> thrown + (string \<times> string)"
  JSON_parse :: "jsstring \<Rightarrow> thrown + jsval"

text \<open>
  What the outside answers during one request. A sub-call (\<^verbatim>\<open>createSummary\<close>,
  \<^verbatim>\<open>selectContext\<close>) rejects, or returns its result after handing one response, with its
  usage if any, to \<^verbatim>\<open>onFinish\<close>. A \<^verbatim>\<open>streamText\<close> call rejects, or streams: it finishes
  some steps, each with its tool calls, and then either finishes (\<^verbatim>\<open>onFinish\<close> is called
  with the text, the finish reason and the usage) or ends in an error part without
  finishing. \<open>model_answers\<close> lists the outcomes of the successive \<^verbatim>\<open>streamText\<close> calls;
  when it runs out, the last call never finishes.
\<close>

record finish =
  finish_text :: string
  finishReason :: string
  finish_usage :: "usage option"

datatype call_outcome = Rejects thrown | Streams "tool_call list list" "finish option"

record answers =
  setup_failure :: "thrown option"
  summary_answer :: "thrown + (string \<times> usage option)"
  select_answer :: "thrown + (filemap option \<times> usage option)"
  model_answers :: "call_outcome list"

subsection \<open>The state of one request\<close>

text \<open>
  \<open>cumulativeUsage\<close> and \<open>progressCounter\<close> are the variables of \<^verbatim>\<open>chatAction\<close>; \<open>switches\<close>
  is the counter of the \<^verbatim>\<open>SwitchableStream\<close> it creates; \<open>trace\<close> collects the effects.
\<close>

record state =
  cumulativeUsage :: usage_totals
  progressCounter :: nat
  switches :: nat
  trace :: "effect list"

definition emit :: "effect \<Rightarrow> state \<Rightarrow> state" where
  "emit e st = st\<lparr>trace := trace st @ [e]\<rparr>"

text \<open>\<^verbatim>\<open>writer.write\<close> of a progress event with \<^verbatim>\<open>order: progressCounter++\<close>.\<close>

definition write_progress :: "string \<Rightarrow> string \<Rightarrow> string \<Rightarrow> state \<Rightarrow> state" where
  "write_progress label status message st =
     (emit (Write (Progress label status (progressCounter st) message)) st)
       \<lparr>progressCounter := progressCounter st + 1\<rparr>"

text \<open>The variables of \<^verbatim>\<open>execute\<close> that the callbacks close over.\<close>

record closure =
  processedMessages :: "ui_message list"
  filteredFiles :: "filemap option"
  summary :: "string option"
  messageSliceId :: nat

datatype outcome = Finished | Pending | Failed thrown

subsection \<open>The callbacks of the generation call\<close>

text \<open>
  \<^verbatim>\<open>onStepFinish\<close>: every tool call of the step goes to the mediator's \<^verbatim>\<open>processToolCall\<close>
  with \<^verbatim>\<open>args: toolCall.input || toolCall.args || {}\<close>.
\<close>

definition tool_args :: "tool_call \<Rightarrow> jsval" where
  "tool_args toolCall = js_or (js_or (input toolCall) (args toolCall)) (JObject [])"

definition onStepFinish :: "tool_call list \<Rightarrow> state \<Rightarrow> state" where
  "onStepFinish toolCalls st =
     fold (\<lambda>toolCall. emit (ProcessToolCall (toolCallId toolCall) (toolName toolCall)
                                (tool_args toolCall)))
       toolCalls st"

definition TypeError :: "string \<Rightarrow> thrown" where
  "TypeError msg = \<lparr>error_name = ''TypeError'', error_message = Some msg, error_statusCode = None,
     error_isRetryable = None, error_provider = None\<rparr>"

text \<open>\<^verbatim>\<open>processedMessages.filter((x) => x.role == 'user').slice(-1)[0]\<close>.\<close>

definition lastUserMessage :: "ui_message list \<Rightarrow> ui_message option" where
  "lastUserMessage msgs =
     (case filter (\<lambda>x. msg_role x = ''user'') msgs of
        [] \<Rightarrow> None
      | u # us \<Rightarrow> Some (last (u # us)))"

text \<open>The template of the continuation message; \<open>CHR 0x0A\<close> is the newline.\<close>

definition continuation_directive :: "env \<Rightarrow> string \<Rightarrow> string \<Rightarrow> string" where
  "continuation_directive env model provider =
     ''[Model: '' @ model @ '']'' @ [CHR 0x0A, CHR 0x0A] @
     ''[Provider: '' @ provider @ '']'' @ [CHR 0x0A, CHR 0x0A] @ CONTINUE_PROMPT env"

datatype finish_result = Done | Continue | Thrown thrown

text \<open>
  \<^verbatim>\<open>onFinish\<close>. With no user message among the processed messages, the conversion is
  handed \<^verbatim>\<open>[undefined]\<close> and fails on reading the role of its element. The callback reads
  \<^verbatim>\<open>stream.switches\<close> and calls no method of \<open>stream\<close>: the counter is left as it is.
  The \<^verbatim>\<open>await\<close> of the continuation's \<^verbatim>\<open>streamText\<close> and what follows it are in
  \<open>after_call\<close>.
\<close>

definition onFinish :: "env \<Rightarrow> closure \<Rightarrow> finish \<Rightarrow> state \<Rightarrow> state \<times> finish_result" where
  "onFinish env cl f st =
     (let st1 = st\<lparr>cumulativeUsage := add_usage (finish_usage f) (cumulativeUsage st)\<rparr> in
      if finishReason f \<noteq> ''length'' then
        (write_progress ''response'' ''complete'' ''Response Generated''
           (emit (Write (UsageEvent (cumulativeUsage st1))) st1), Done)
      else if MAX_RESPONSE_SEGMENTS env \<le> switches st1 then
        (st1, Thrown (Error ''Cannot continue message: Maximum segments reached''))
      else
        (case lastUserMessage (processedMessages cl) of
           None \<Rightarrow> (st1, Thrown (TypeError ''Cannot read properties of undefined''))
         | Some m \<Rightarrow>
             (case extractPropertiesFromMessage env
                     (case convertToCoreMessages env [m] of [] \<Rightarrow> None | c # _ \<Rightarrow> Some c) of
                Inl e \<Rightarrow> (st1, Thrown e)
              | Inr (model, provider) \<Rightarrow>
                  (emit (StreamText
                     \<lparr>call_messages =
                        convertToCoreMessages env (processedMessages cl) @
                        [\<lparr>role = ''assistant'', content = Text (finish_text f)\<rparr>,
                         \<lparr>role = ''user'',
                          content = Text (continuation_directive env model provider)\<rparr>],
                      call_contextFiles = filteredFiles cl,
                      call_summary = summary cl,
                      call_messageSliceId = messageSliceId cl\<rparr>) st1,
                   Continue))))"

text \<open>
  What follows a \<^verbatim>\<open>streamText\<close> call: the \<^verbatim>\<open>await\<close> rejects, or the result's stream is
  merged into the client stream and the callbacks run as the call streams. A call whose
  \<^verbatim>\<open>onFinish\<close> issued a continuation is followed by that continuation's outcome.
\<close>

fun after_call :: "env \<Rightarrow> closure \<Rightarrow> call_outcome list \<Rightarrow> state \<Rightarrow> state \<times> outcome" where
  "after_call env cl [] st = (st, Pending)"
| "after_call env cl (Rejects e # rest) st = (st, Failed e)"
| "after_call env cl (Streams steps fin # rest) st =
     (let st1 = fold onStepFinish steps (emit Merge st) in
      case fin of
        None \<Rightarrow> (st1, Pending)
      | Some f \<Rightarrow>
          (case onFinish env cl f st1 of
             (st2, Done) \<Rightarrow> (st2, Finished)
           | (st2, Thrown e) \<Rightarrow> (st2, Failed e)
           | (st2, Continue) \<Rightarrow> after_call env cl rest st2))"

subsection \<open>execute\<close>

record body =
  messages :: "ui_message list"
  files :: "filemap option"
  contextOptimization :: bool

text \<open>\<^verbatim>\<open>if (path.startsWith(WORK_DIR)) path = path.replace(WORK_DIR, '')\<close>.\<close>

definition strip_work_dir :: "env \<Rightarrow> string \<Rightarrow> string" where
  "strip_work_dir env path =
     (if prefix (WORK_DIR env) path then drop (length (WORK_DIR env)) path else path)"

text \<open>\<^verbatim>\<open>getFilePaths(files || {})\<close>.\<close>

definition filePaths :: "env \<Rightarrow> body \<Rightarrow> string list" where
  "filePaths env b = getFilePaths env (case files b of None \<Rightarrow> [] | Some fs \<Rightarrow> fs)"

text \<open>\<^verbatim>\<open>processedMessages.slice(-1)?.[0]?.id\<close>.\<close>

definition last_id :: "ui_message list \<Rightarrow> string option" where
  "last_id msgs = (if msgs = [] then None else Some (msg_id (last msgs)))"

text \<open>
  The block under \<^verbatim>\<open>if (filePaths.length > 0 && contextOptimization)\<close>: it returns the
  summary and the selected files, or the value thrown. \<^verbatim>\<open>Object.keys(filteredFiles)\<close> throws
  when \<^verbatim>\<open>selectContext\<close> returned \<^verbatim>\<open>undefined\<close>.
\<close>

definition optimize ::
  "env \<Rightarrow> answers \<Rightarrow> ui_message list \<Rightarrow> state \<Rightarrow> state \<times> (thrown + string \<times> filemap)" where
  "optimize env ans pm st =
     (let st1 = emit (CreateSummary (convertToCoreMessages env pm))
                  (write_progress ''summary'' ''in-progress'' ''Analysing Request'' st) in
      case summary_answer ans of
        Inl e \<Rightarrow> (st1, Inl e)
      | Inr (summ, usage1) \<Rightarrow>
          (let st2 = st1\<lparr>cumulativeUsage := add_usage usage1 (cumulativeUsage st1)\<rparr>;
               st3 = write_progress ''summary'' ''complete'' ''Analysis Complete'' st2;
               st4 = emit (Write (ChatSummary summ (last_id pm))) st3;
               st5 = write_progress ''context'' ''in-progress'' ''Determining Files to Read'' st4;
               st6 = emit (SelectContext (convertToCoreMessages env pm) summ) st5 in
           case select_answer ans of
             Inl e \<Rightarrow> (st6, Inl e)
           | Inr (selected, usage2) \<Rightarrow>
               (let st7 = st6\<lparr>cumulativeUsage := add_usage usage2 (cumulativeUsage st6)\<rparr> in
                case selected of
                  None \<Rightarrow> (st7, Inl (TypeError ''Cannot convert undefined or null to object''))
                | Some fs \<Rightarrow>
                    (let st8 = emit (Write (CodeContext (map (strip_work_dir env) (map fst fs)))) st7;
                         st9 = write_progress ''context'' ''complete'' ''Code Files Selected'' st8
                     in (st9, Inr (summ, fs))))))"

text \<open>From the \<open>response\<close> progress event to the end: the first generation call and what follows.\<close>

definition generate :: "env \<Rightarrow> answers \<Rightarrow> closure \<Rightarrow> state \<Rightarrow> state \<times> outcome" where
  "generate env ans cl st =
     after_call env cl (model_answers ans)
       (emit (StreamText
                \<lparr>call_messages = convertToCoreMessages env (processedMessages cl),
                 call_contextFiles = filteredFiles cl,
                 call_summary = summary cl,
                 call_messageSliceId = messageSliceId cl\<rparr>)
          (write_progress ''response'' ''in-progress'' ''Generating Response'' st))"

definition execute :: "env \<Rightarrow> answers \<Rightarrow> body \<Rightarrow> state \<Rightarrow> state \<times> outcome" where
  "execute env ans b st =
     (let st1 = emit (ProcessToolInvocations (messages b)) st;
          pm = processToolInvocations env (messages b);
          sliceId = (if length pm > 3 then length pm - 3 else 0) in
      if filePaths env b \<noteq> [] \<and> contextOptimization b then
        (case optimize env ans pm st1 of
           (st2, Inl e) \<Rightarrow> (st2, Failed e)
         | (st2, Inr (summ, fs)) \<Rightarrow>
             generate env ans
               \<lparr>processedMessages = pm, filteredFiles = Some fs, summary = Some summ,
                messageSliceId = sliceId\<rparr> st2)
      else
        generate env ans
          \<lparr>processedMessages = pm, filteredFiles = None, summary = None,
           messageSliceId = sliceId\<rparr> st1)"

subsection \<open>chatAction\<close>

text \<open>
  Modelled from the spec: the initial value of the counter of \<^verbatim>\<open>SwitchableStream\<close>
  (\<^verbatim>\<open>lib/.server/llm/switchable-stream\<close>), whose code is not among the sources. The spec
  calls it a switch count that increments once per continuation; a new stream has 0. The
  other variables are as \<^verbatim>\<open>chatAction\<close> initialises them.
\<close>

definition initial_state :: state where
  "initial_state =
     \<lparr>cumulativeUsage = \<lparr>completionTokens = 0, promptTokens = 0, totalTokens = 0\<rparr>,
      progressCounter = 1, switches = 0, trace = []\<rparr>"

text \<open>
  A request: what \<^verbatim>\<open>request.json()\<close> resolves to or rejects with, and the Cookie header
  (\<open>None\<close> when there is none).
\<close>

record request =
  request_json :: "thrown + body"
  cookie :: "jsstring option"

record error_response =
  error :: bool
  message :: string
  statusCode :: int
  isRetryable :: bool
  provider :: string

datatype response_body = JsonBody error_response | EventStream "state \<times> outcome"

text \<open>A response: the body and the init dictionary given to the \<^verbatim>\<open>Response\<close> constructor.\<close>

record response =
  status :: int
  statusText :: "string option"
  headers :: "(string \<times> string) list"
  response_body :: response_body

definition RangeError :: "string \<Rightarrow> thrown" where
  "RangeError msg = \<lparr>error_name = ''RangeError'', error_message = Some msg,
     error_statusCode = None, error_isRetryable = None, error_provider = None\<rparr>"

text \<open>
  \<^verbatim>\<open>new Response(body, init)\<close> with a body, as the Fetch standard has it: a status outside
  200 to 599 throws RangeError, and a null body status (of those in range: 204, 205, 304)
  throws TypeError, since every response of the route has a body. The status texts and
  header names of the route are accepted.
\<close>

definition new_Response :: "response \<Rightarrow> thrown + response" where
  "new_Response r =
     (if status r < 200 \<or> 599 < status r then
        Inl (RangeError ''The status provided is outside the range [200, 599].'')
      else if status r = 204 \<or> status r = 205 \<or> status r = 304 then
        Inl (TypeError ''Response with null body status cannot have body'')
      else Inr r)"

text \<open>
  The \<^verbatim>\<open>catch\<close> block. What the constructor throws there is thrown out of the block and
  leaves \<^verbatim>\<open>chatAction\<close>.
\<close>

definition catch_block :: "thrown \<Rightarrow> thrown + response" where
  "catch_block err =
     (let errorResponse =
            \<lparr>error = True,
             message = str_or (error_message err) ''An unexpected error occurred'',
             statusCode = (case error_statusCode err of
                             None \<Rightarrow> 500
                           | Some c \<Rightarrow> if c = 0 then 500 else c),
             isRetryable = (error_isRetryable err \<noteq> Some False),
             provider = str_or (error_provider err) ''unknown''\<rparr> in
      if (case error_message err of None \<Rightarrow> False | Some m \<Rightarrow> str_includes m ''API key'') then
        new_Response
          \<lparr>status = 401, statusText = Some ''Unauthorized'',
           headers = [(''Content-Type'', ''application/json'')],
           response_body = JsonBody (errorResponse\<lparr>message := ''Invalid or missing API key'',
                                       statusCode := 401, isRetryable := False\<rparr>)\<rparr>
      else
        new_Response
          \<lparr>status = statusCode errorResponse, statusText = Some ''Error'',
           headers = [(''Content-Type'', ''application/json'')],
           response_body = JsonBody errorResponse\<rparr>)"

text \<open>\<^verbatim>\<open>JSON.parse(parseCookies(cookieHeader || '').k || '{}')\<close>.\<close>

definition cookie_json :: "env \<Rightarrow> jsstring option \<Rightarrow> string \<Rightarrow> thrown + jsval" where
  "cookie_json env cookieHeader k =
     (case parseCookies (case cookieHeader of None \<Rightarrow> [] | Some h \<Rightarrow> h) of
        Inl e \<Rightarrow> Inl e
      | Inr cookies \<Rightarrow>
          JSON_parse env
            (case cookies (js k) of
               None \<Rightarrow> js ''{}''
             | Some v \<Rightarrow> if v = [] then js ''{}'' else v))"

text \<open>
  \<^verbatim>\<open>chatAction\<close>. The request body and the two cookies are read before the \<^verbatim>\<open>try\<close>
  statement: what they throw leaves the function (\<open>Inl\<close>). \<open>setup_failure\<close> is a value
  thrown inside the \<^verbatim>\<open>try\<close> block before the response is built.
\<close>

definition chatAction :: "env \<Rightarrow> answers \<Rightarrow> request \<Rightarrow> thrown + response" where
  "chatAction env ans req =
     (case request_json req of
        Inl e \<Rightarrow> Inl e
      | Inr b \<Rightarrow>
          (case cookie_json env (cookie req) ''apiKeys'' of
             Inl e \<Rightarrow> Inl e
           | Inr apiKeys \<Rightarrow>
               (case cookie_json env (cookie req) ''providers'' of
                  Inl e \<Rightarrow> Inl e
                | Inr providerSettings \<Rightarrow>
                    (case setup_failure ans of
                       Some e \<Rightarrow> catch_block e
                     | None \<Rightarrow>
                         new_Response
                           \<lparr>status = 200, statusText = None,
                            headers = [(''Content-Type'', ''text/event-stream; charset=utf-8''),
                                       (''Connection'', ''keep-alive''),
                                       (''Cache-Control'', ''no-cache''),
                                       (''Text-Encoding'', ''chunked'')],
                            response_body = EventStream (execute env ans b initial_state)\<rparr>))))"

subsection \<open>Reading a trace\<close>

text \<open>Projections of a trace, used to state the properties.\<close>

fun usage_of :: "effect \<Rightarrow> usage_totals list" where
  "usage_of (Write (UsageEvent u)) = [u]"
| "usage_of _ = []"

definition usage_events :: "effect list \<Rightarrow> usage_totals list" where
  "usage_events tr = concat (map usage_of tr)"

fun order_of :: "effect \<Rightarrow> nat list" where
  "order_of (Write (Progress l s n m)) = [n]"
| "order_of _ = []"

definition progress_orders :: "effect list \<Rightarrow> nat list" where
  "progress_orders tr = concat (map order_of tr)"

fun call_of :: "effect \<Rightarrow> stream_call list" where
  "call_of (StreamText c) = [c]"
| "call_of _ = []"

definition stream_calls :: "effect list \<Rightarrow> stream_call list" where
  "stream_calls tr = concat (map call_of tr)"

text \<open>
  The events of the context optimization: a progress event labelled \<open>summary\<close> or
  \<open>context\<close>, a chat summary, a code context.
\<close>

fun is_context_event :: "effect \<Rightarrow> bool" where
  "is_context_event (Write (Progress l s n m)) = (l = ''summary'' \<or> l = ''context'')"
| "is_context_event (Write (ChatSummary s i)) = True"
| "is_context_event (Write (CodeContext fs)) = True"
| "is_context_event _ = False"

text \<open>The \<open>response\<close> progress events with status \<open>complete\<close>.\<close>

fun is_response_complete :: "effect \<Rightarrow> bool" where
  "is_response_complete (Write (Progress l s n m)) = (l = ''response'' \<and> s = ''complete'')"
| "is_response_complete _ = False"

text \<open>The tool calls handed to the mediator.\<close>

fun tool_call_of :: "effect \<Rightarrow> (string \<times> string \<times> jsval) list" where
  "tool_call_of (ProcessToolCall i n a) = [(i, n, a)]"
| "tool_call_of _ = []"

definition mediated_calls :: "effect list \<Rightarrow> (string \<times> string \<times> jsval) list" where
  "mediated_calls tr = concat (map tool_call_of tr)"

text \<open>The componentwise sum of the counts of a list of usage objects, each read with \<^verbatim>\<open>|| 0\<close>.\<close>

definition sum_usages :: "usage list \<Rightarrow> usage_totals" where
  "sum_usages us =
     \<lparr>completionTokens = sum_list (map (\<lambda>u. or_zero (completionTokens_of u)) us),
      promptTokens = sum_list (map (\<lambda>u. or_zero (promptTokens_of u)) us),
      totalTokens = sum_list (map (\<lambda>u. or_zero (totalTokens_of u)) us)\<rparr>"

definition syntax_error :: thrown where
  "syntax_error =
     \<lparr>error_name = ''SyntaxError'', error_message = Some ''Unexpected end of JSON input'',
      error_statusCode = None, error_isRetryable = None, error_provider = None\<rparr>"

text \<open>
  The invariant of the progress counter: the orders written so far are \<open>1, 2, \<dots>\<close> up to
  the counter, exclusive.
\<close>

definition counted :: "state \<Rightarrow> bool" where
  "counted st = (1 \<le> progressCounter st \<and>
                 progress_orders (trace st) = [1 ..< progressCounter st])"

text \<open>The usage objects that a list of sub-calls reported: those that are not \<^verbatim>\<open>undefined\<close>.\<close>

definition reported :: "usage option list \<Rightarrow> usage list" where
  "reported uos = concat (map (\<lambda>uo. case uo of None \<Rightarrow> [] | Some u \<Rightarrow> [u]) uos)"

text \<open>The usages handed over by the two sub-calls of the context optimization, when it runs.\<close>

definition optimizer_usages :: "env \<Rightarrow> answers \<Rightarrow> body \<Rightarrow> usage option list" where
  "optimizer_usages env ans b =
     (if filePaths env b \<noteq> [] \<and> contextOptimization b then
        (case summary_answer ans of Inl e \<Rightarrow> [] | Inr (s, u) \<Rightarrow> [u]) @
        (case select_answer ans of Inl e \<Rightarrow> [] | Inr (fs, u) \<Rightarrow> [u])
      else [])"

subsection \<open>The cookie header, read item by item\<close>

text \<open>
  The entries of a cookie header in the words of the property: the items are the pieces
  between semicolons, trimmed; the name of an item is what stands before its first
  \<^verbatim>\<open>=\<close> and its remainder what stands after it (empty when there is no \<^verbatim>\<open>=\<close>); an item
  with a non-empty name gives the entry of its trimmed, decoded name and its trimmed,
  decoded remainder. \<open>cookie_entries\<close> is \<open>None\<close> when a name or a remainder of such an
  item is not decodable.
\<close>

definition cookie_items :: "jsstring \<Rightarrow> jsstring list" where
  "cookie_items cookieHeader = map trim (split_on 59 cookieHeader)"

definition item_name :: "jsstring \<Rightarrow> jsstring" where
  "item_name item = takeWhile (\<lambda>c. c \<noteq> 61) item"

definition item_remainder :: "jsstring \<Rightarrow> jsstring" where
  "item_remainder item = drop (Suc (length (item_name item))) item"

definition cookie_entry :: "jsstring \<Rightarrow> (jsstring \<times> jsstring) option" where
  "cookie_entry item =
     (case decodeURIComponent (trim (item_name item)) of
        None \<Rightarrow> None
      | Some n \<Rightarrow>
          (case decodeURIComponent (trim (item_remainder item)) of
             None \<Rightarrow> None
           | Some v \<Rightarrow> Some (n, v)))"

fun cookie_entries :: "jsstring list \<Rightarrow> (jsstring \<times> jsstring) list option" where
  "cookie_entries [] = Some []"
| "cookie_entries (item # items) =
     (if item_name item = [] then cookie_entries items
      else (case cookie_entry item of
              None \<Rightarrow> None
            | Some e \<Rightarrow> map_option (Cons e) (cookie_entries items)))"

subsection \<open>Example inputs\<close>

text \<open>
  Concrete collaborators and requests, on which the theorems below are instantiated. The
  example \<open>extractPropertiesFromMessage\<close> takes the model from the first text part of the
  message and falls back to a default.
\<close>

definition example_env :: env where
  "example_env =
     \<lparr>MAX_RESPONSE_SEGMENTS = 2,
      CONTINUE_PROMPT = ''Continue your prior response.'',
      WORK_DIR = ''/home/project'',
      getFilePaths = map fst,
      processToolInvocations = (\<lambda>msgs. msgs),
      convertToCoreMessages = map (\<lambda>m. \<lparr>role = msg_role m, content = Parts (msg_parts m)\<rparr>),
      extractPropertiesFromMessage =
        (\<lambda>c. case c of
               None \<Rightarrow> Inl (TypeError ''Cannot read properties of undefined'')
             | Some m \<Rightarrow>
                 (case content m of
                    Parts (TextPart t # _) \<Rightarrow> Inr (t, ''OpenAI'')
                  | _ \<Rightarrow> Inr (''gpt-4o'', ''OpenAI''))),
      JSON_parse = (\<lambda>s. if s = js ''{}'' then Inr (JObject []) else Inl (Error ''Unexpected token''))\<rparr>"

definition hello :: ui_message where
  "hello = \<lparr>msg_id = ''m1'', msg_role = ''user'', msg_parts = [TextPart ''hello'']\<rparr>"

definition example_body :: body where
  "example_body = \<lparr>messages = [hello], files = Some [], contextOptimization = True\<rparr>"

definition example_request :: request where
  "example_request = \<lparr>request_json = Inr example_body, cookie = None\<rparr>"

definition stop_finish :: "usage option \<Rightarrow> finish" where
  "stop_finish u = \<lparr>finish_text = ''Hi.'', finishReason = ''stop'', finish_usage = u\<rparr>"

definition length_finish :: "usage option \<Rightarrow> finish" where
  "length_finish u = \<lparr>finish_text = ''Once upon'', finishReason = ''length'', finish_usage = u\<rparr>"

definition example_answers :: "call_outcome list \<Rightarrow> answers" where
  "example_answers outcomes =
     \<lparr>setup_failure = None,
      summary_answer = Inr (''The user greets.'', Some [''inputTokens'' \<mapsto> Num 11, ''outputTokens'' \<mapsto> Num 4]),
      select_answer = Inr (Some [(''/home/project/a.ts'', ''x'')], Some [''promptTokens'' \<mapsto> Num 20, ''completionTokens'' \<mapsto> Num 2, ''totalTokens'' \<mapsto> Num 22]),
      model_answers = outcomes\<rparr>"

definition example_usage :: usage where
  "example_usage = [''inputTokens'' \<mapsto> Num 5, ''outputTokens'' \<mapsto> Num 7]"

definition two_segments :: answers where
  "two_segments = example_answers
     [Streams [] (Some (length_finish (Some example_usage))),
      Streams [] (Some (stop_finish (Some example_usage)))]"

definition undefined_total :: usage where
  "undefined_total = [''inputTokens'' \<mapsto> Num 5, ''outputTokens'' \<mapsto> Num 7, ''totalTokens'' \<mapsto> Undef]"

definition project_body :: body where
  "project_body = \<lparr>messages = [hello], files = Some [(''/home/project/a.ts'', ''x'')],
     contextOptimization = True\<rparr>"

definition four_segments :: answers where
  "four_segments = example_answers
     [Streams [] (Some (length_finish None)),
      Streams [] (Some (length_finish None)),
      Streams [] (Some (length_finish None)),
      Streams [] (Some (stop_finish None))]"

section \<open>Properties\<close>

subsection \<open>The error classifier\<close>






subsection \<open>The state primitives\<close>

lemma trace_emit [simp]: "trace (emit e st) = trace st @ [e]"
  and switches_emit [simp]: "switches (emit e st) = switches st"
  and counter_emit [simp]: "progressCounter (emit e st) = progressCounter st"
  and usage_emit [simp]: "cumulativeUsage (emit e st) = cumulativeUsage st"
  by (simp_all add: emit_def)

lemma trace_write_progress [simp]:
  "trace (write_progress l s m st) = trace st @ [Write (Progress l s (progressCounter st) m)]"
  and switches_write_progress [simp]: "switches (write_progress l s m st) = switches st"
  and counter_write_progress [simp]:
    "progressCounter (write_progress l s m st) = Suc (progressCounter st)"
  and usage_write_progress [simp]:
    "cumulativeUsage (write_progress l s m st) = cumulativeUsage st"
  by (simp_all add: write_progress_def)

lemma usage_events_append [simp]: "usage_events (xs @ ys) = usage_events xs @ usage_events ys"
  and progress_orders_append [simp]:
    "progress_orders (xs @ ys) = progress_orders xs @ progress_orders ys"
  and stream_calls_append [simp]: "stream_calls (xs @ ys) = stream_calls xs @ stream_calls ys"
  and mediated_calls_append [simp]:
    "mediated_calls (xs @ ys) = mediated_calls xs @ mediated_calls ys"
  by (simp_all add: usage_events_def progress_orders_def stream_calls_def mediated_calls_def)

lemma projections_Nil [simp]:
  "usage_events [] = []" "progress_orders [] = []" "stream_calls [] = []" "mediated_calls [] = []"
  by (simp_all add: usage_events_def progress_orders_def stream_calls_def mediated_calls_def)

lemma projections_Cons [simp]:
  "usage_events (e # es) = usage_of e @ usage_events es"
  "progress_orders (e # es) = order_of e @ progress_orders es"
  "stream_calls (e # es) = call_of e @ stream_calls es"
  "mediated_calls (e # es) = tool_call_of e @ mediated_calls es"
  by (simp_all add: usage_events_def progress_orders_def stream_calls_def mediated_calls_def)

subsection \<open>The step callback\<close>

lemma onStepFinish_trace:
  "trace (onStepFinish toolCalls st) =
     trace st @ map (\<lambda>tc. ProcessToolCall (toolCallId tc) (toolName tc) (tool_args tc)) toolCalls"
  unfolding onStepFinish_def by (induction toolCalls arbitrary: st) simp_all

lemma onStepFinish_fields [simp]:
  "switches (onStepFinish toolCalls st) = switches st"
  "progressCounter (onStepFinish toolCalls st) = progressCounter st"
  "cumulativeUsage (onStepFinish toolCalls st) = cumulativeUsage st"
  unfolding onStepFinish_def by (induction toolCalls arbitrary: st; simp)+

lemma tool_calls_silent [simp]:
  "usage_events (map (\<lambda>tc. ProcessToolCall (f tc) (g tc) (h tc)) tcs) = []"
  "progress_orders (map (\<lambda>tc. ProcessToolCall (f tc) (g tc) (h tc)) tcs) = []"
  "stream_calls (map (\<lambda>tc. ProcessToolCall (f tc) (g tc) (h tc)) tcs) = []"
  "filter is_context_event (map (\<lambda>tc. ProcessToolCall (f tc) (g tc) (h tc)) tcs) = []"
  "filter is_response_complete (map (\<lambda>tc. ProcessToolCall (f tc) (g tc) (h tc)) tcs) = []"
  by (induction tcs) (simp_all add: usage_events_def progress_orders_def stream_calls_def)

text \<open>The steps of one call: the state keeps its counters, the trace gains tool calls only.\<close>

lemma steps_fields [simp]:
  "switches (fold onStepFinish steps st) = switches st"
  "progressCounter (fold onStepFinish steps st) = progressCounter st"
  "cumulativeUsage (fold onStepFinish steps st) = cumulativeUsage st"
  by (induction steps arbitrary: st; simp)+

lemma steps_trace:
  "\<exists>tcs. trace (fold onStepFinish steps st) =
      trace st @ map (\<lambda>tc. ProcessToolCall (toolCallId tc) (toolName tc) (tool_args tc)) tcs"
proof (induction steps arbitrary: st)
  case Nil
  have "trace st = trace st @ map (\<lambda>tc. ProcessToolCall (toolCallId tc) (toolName tc) (tool_args tc)) []"
    by simp
  then show ?case unfolding fold_simps id_apply by (rule exI)
next
  case (Cons s steps)
  from Cons [of "onStepFinish s st"] obtain tcs where
    "trace (fold onStepFinish steps (onStepFinish s st)) =
       trace (onStepFinish s st) @
       map (\<lambda>tc. ProcessToolCall (toolCallId tc) (toolName tc) (tool_args tc)) tcs" ..
  then have "trace (fold onStepFinish (s # steps) st) =
       trace st @ map (\<lambda>tc. ProcessToolCall (toolCallId tc) (toolName tc) (tool_args tc)) (s @ tcs)"
    by (simp add: onStepFinish_trace)
  then show ?case by (rule exI)
qed

lemma steps_projections [simp]:
  "usage_events (trace (fold onStepFinish steps st)) = usage_events (trace st)"
  "progress_orders (trace (fold onStepFinish steps st)) = progress_orders (trace st)"
  "stream_calls (trace (fold onStepFinish steps st)) = stream_calls (trace st)"
  "filter is_context_event (trace (fold onStepFinish steps st)) = filter is_context_event (trace st)"
  "filter is_response_complete (trace (fold onStepFinish steps st))
     = filter is_response_complete (trace st)"
  using steps_trace [of steps st] by auto

subsection \<open>The finish callback\<close>

lemma onFinish_usage:
  "cumulativeUsage (fst (onFinish env cl f st)) = add_usage (finish_usage f) (cumulativeUsage st)"
  by (simp add: onFinish_def Let_def split: option.splits sum.splits prod.splits)

lemma onFinish_switches: "switches (fst (onFinish env cl f st)) = switches st"
  by (simp add: onFinish_def Let_def split: option.splits sum.splits prod.splits)

lemma onFinish_Done_iff: "snd (onFinish env cl f st) = Done \<longleftrightarrow> finishReason f \<noteq> ''length''"
  by (simp add: onFinish_def Let_def split: option.splits sum.splits prod.splits)

lemma onFinish_Done:
  assumes "onFinish env cl f st = (st', Done)"
  shows "trace st' = trace st @ [Write (UsageEvent (cumulativeUsage st')),
            Write (Progress ''response'' ''complete'' (progressCounter st) ''Response Generated'')]"
    and "progressCounter st' = Suc (progressCounter st)"
  using assms
  by (auto simp: onFinish_def Let_def split: if_splits option.splits sum.splits prod.splits)

lemma onFinish_Continue:
  assumes "onFinish env cl f st = (st', Continue)"
  shows "\<exists>c. trace st' = trace st @ [StreamText c]"
    and "progressCounter st' = progressCounter st"
    and "switches st < MAX_RESPONSE_SEGMENTS env"
  using assms
  by (auto simp: onFinish_def Let_def split: if_splits option.splits sum.splits prod.splits)

lemma onFinish_Thrown:
  assumes "onFinish env cl f st = (st', Thrown e)"
  shows "trace st' = trace st" and "progressCounter st' = progressCounter st"
  using assms
  by (auto simp: onFinish_def Let_def split: if_splits option.splits sum.splits prod.splits)

subsection \<open>Runs of the generation calls\<close>

lemma after_call_switches: "switches (fst (after_call env cl outs st)) = switches st"
proof (induction env cl outs st rule: after_call.induct)
  case (3 env cl steps fin rest st)
  show ?case
  proof (cases fin)
    case None
    then show ?thesis by simp
  next
    case (Some f)
    obtain st2 r where r: "onFinish env cl f (fold onStepFinish steps (emit Merge st)) = (st2, r)"
      by (cases "onFinish env cl f (fold onStepFinish steps (emit Merge st))")
    have sw: "switches st2 = switches st"
      using onFinish_switches [of env cl f "fold onStepFinish steps (emit Merge st)"] r by simp
    show ?thesis
    proof (cases r)
      case Continue
      with "3.IH" [OF refl Some r [symmetric]] Some r sw show ?thesis by simp
    qed (use Some r sw in simp_all)
  qed
qed simp_all

lemma counted_initial: "counted initial_state"
  by (simp add: counted_def initial_state_def)

lemma counted_emit:
  "order_of e = [] \<Longrightarrow> counted st \<Longrightarrow> counted (emit e st)"
  by (simp add: counted_def)

lemma counted_usage_update [simp]: "counted (st\<lparr>cumulativeUsage := u\<rparr>) = counted st"
  by (simp add: counted_def)

lemma counted_write_progress: "counted st \<Longrightarrow> counted (write_progress l s m st)"
  by (simp add: counted_def)

lemma counted_steps: "counted st \<Longrightarrow> counted (fold onStepFinish steps st)"
  by (simp add: counted_def)

lemma counted_onFinish: "counted st \<Longrightarrow> counted (fst (onFinish env cl f st))"
  by (auto simp: onFinish_def Let_def counted_def
      split: if_splits option.splits sum.splits prod.splits)

lemma counted_after_call: "counted st \<Longrightarrow> counted (fst (after_call env cl outs st))"
proof (induction env cl outs st rule: after_call.induct)
  case (3 env cl steps fin rest st)
  let ?s1 = "fold onStepFinish steps (emit Merge st)"
  have c1: "counted ?s1" using "3.prems" by (simp add: counted_steps counted_emit)
  show ?case
  proof (cases fin)
    case None
    with c1 show ?thesis by simp
  next
    case (Some f)
    obtain st2 r where r: "onFinish env cl f ?s1 = (st2, r)" by (cases "onFinish env cl f ?s1")
    have c2: "counted st2" using counted_onFinish [OF c1, where env = env and cl = cl and f = f] r by simp
    show ?thesis
    proof (cases r)
      case Continue
      with "3.IH" [OF refl Some r [symmetric] _ c2] Some r show ?thesis by simp
    qed (use Some r c2 in simp_all)
  qed
qed simp_all

lemma counted_optimize: "counted st \<Longrightarrow> counted (fst (optimize env ans pm st))"
  by (auto simp: optimize_def Let_def counted_def split: sum.splits prod.splits option.splits)

lemma counted_generate: "counted st \<Longrightarrow> counted (fst (generate env ans cl st))"
  unfolding generate_def
  by (intro counted_after_call counted_emit counted_write_progress) simp_all

lemma counted_execute: "counted st \<Longrightarrow> counted (fst (execute env ans b st))"
proof -
  assume c: "counted st"
  have c1: "counted (emit (ProcessToolInvocations (messages b)) st)"
    using c by (simp add: counted_emit)
  show ?thesis
  proof (cases "filePaths env b \<noteq> [] \<and> contextOptimization b")
    case False
    then show ?thesis using counted_generate [OF c1] by (auto simp: execute_def Let_def)
  next
    case True
    obtain st2 r where o: "optimize env ans (processToolInvocations env (messages b))
        (emit (ProcessToolInvocations (messages b)) st) = (st2, r)"
      by (cases "optimize env ans (processToolInvocations env (messages b))
        (emit (ProcessToolInvocations (messages b)) st)")
    have c2: "counted st2" using counted_optimize [OF c1, where env = env and ans = ans
          and pm = "processToolInvocations env (messages b)"] o by simp
    show ?thesis
      using True o c2 counted_generate [OF c2]
      by (cases r) (auto simp: execute_def Let_def split: prod.splits)
  qed
qed

text \<open>
  C5: within one response stream the order values of the progress events are
  \<open>1, 2, 3, \<dots>\<close>: a strictly increasing sequence that starts at 1, each event carrying the
  value of the counter, which it increments by one.
\<close>

theorem progress_orders_execute:
  "progress_orders (trace (fst (execute env ans b initial_state)))
     = [1 ..< progressCounter (fst (execute env ans b initial_state))]
   \<and> sorted_wrt (<) (progress_orders (trace (fst (execute env ans b initial_state))))
   \<and> progress_orders (trace (write_progress l s m st))
     = progress_orders (trace st) @ [progressCounter st]
   \<and> progressCounter (write_progress l s m st) = progressCounter st + 1"
  using counted_execute [OF counted_initial, of env ans b] by (simp add: counted_def)

subsection \<open>The responses of chatAction\<close>

text \<open>
  C7 does not hold of the code: a failure thrown before the event stream opens does not
  always yield the JSON error response. A request whose body is not JSON makes
  \<^verbatim>\<open>request.json()\<close> reject before the \<^verbatim>\<open>try\<close> statement is entered, so the failure
  leaves \<^verbatim>\<open>chatAction\<close> uncaught and no response is built.
\<close>

theorem malformed_body_uncaught:
  "chatAction example_env (example_answers []) \<lparr>request_json = Inl syntax_error, cookie = None\<rparr>
     = Inl syntax_error"
  by (simp add: chatAction_def)

text \<open>
  What the route does answer. Once the body and the two cookies have been read, the
  response is the one of the \<^verbatim>\<open>catch\<close> block after a failure inside the \<^verbatim>\<open>try\<close> block,
  and the event stream with status 200 otherwise.
\<close>

lemma chatAction_after_reading:
  assumes "request_json req = Inr b"
    and "cookie_json env (cookie req) ''apiKeys'' = Inr apiKeys"
    and "cookie_json env (cookie req) ''providers'' = Inr providerSettings"
  shows "chatAction env ans req =
    (case setup_failure ans of
       None \<Rightarrow>
         Inr \<lparr>status = 200, statusText = None,
              headers = [(''Content-Type'', ''text/event-stream; charset=utf-8''),
                         (''Connection'', ''keep-alive''),
                         (''Cache-Control'', ''no-cache''),
                         (''Text-Encoding'', ''chunked'')],
              response_body = EventStream (execute env ans b initial_state)\<rparr>
     | Some e \<Rightarrow> catch_block e)"
  using assms
  by (cases "setup_failure ans") (simp_all add: chatAction_def new_Response_def)

text \<open>
  The \<^verbatim>\<open>catch\<close> block answers an error whose message contains \<^verbatim>\<open>API key\<close> with status
  401. It answers any other error with the error's own \<open>statusCode\<close>, or 500, when the
  constructor accepts that status, and throws when it does not.
\<close>

lemma catch_block_api_key:
  assumes "error_message e = Some m" and "str_includes m ''API key''"
  shows "catch_block e =
     Inr \<lparr>status = 401, statusText = Some ''Unauthorized'',
          headers = [(''Content-Type'', ''application/json'')],
          response_body = JsonBody
            \<lparr>error = True, message = ''Invalid or missing API key'', statusCode = 401,
             isRetryable = False, provider = str_or (error_provider e) ''unknown''\<rparr>\<rparr>"
  using assms by (simp add: catch_block_def new_Response_def Let_def)

lemma catch_block_other:
  assumes "\<not> (case error_message e of None \<Rightarrow> False | Some m \<Rightarrow> str_includes m ''API key'')"
    and "c = (case error_statusCode e of None \<Rightarrow> 500 | Some c \<Rightarrow> if c = 0 then 500 else c)"
  shows "catch_block e =
     (if c < 200 \<or> 599 < c then
        Inl (RangeError ''The status provided is outside the range [200, 599].'')
      else if c = 204 \<or> c = 205 \<or> c = 304 then
        Inl (TypeError ''Response with null body status cannot have body'')
      else
        Inr \<lparr>status = c, statusText = Some ''Error'',
             headers = [(''Content-Type'', ''application/json'')],
             response_body = JsonBody
               \<lparr>error = True,
                message = str_or (error_message e) ''An unexpected error occurred'',
                statusCode = c,
                isRetryable = (error_isRetryable e \<noteq> Some False),
                provider = str_or (error_provider e) ''unknown''\<rparr>\<rparr>)"
  using assms by (simp add: catch_block_def new_Response_def Let_def)

lemma example_cookie_json: "cookie_json example_env None k = Inr (JObject [])"
  by (simp add: cookie_json_def parseCookies_def parse_item_def example_env_def trim_def)

lemma api_key_failure_example:
  "chatAction example_env
     ((example_answers [])\<lparr>setup_failure := Some (Error ''Missing API key for provider'')\<rparr>)
     example_request =
   Inr \<lparr>status = 401, statusText = Some ''Unauthorized'',
        headers = [(''Content-Type'', ''application/json'')],
        response_body = JsonBody
          \<lparr>error = True, message = ''Invalid or missing API key'', statusCode = 401,
           isRetryable = False, provider = ''unknown''\<rparr>\<rparr>"
proof -
  let ?ans = "(example_answers [])\<lparr>setup_failure := Some (Error ''Missing API key for provider'')\<rparr>"
  have a: "request_json example_request = Inr example_body" by (simp add: example_request_def)
  have b: "cookie_json example_env (cookie example_request) ''apiKeys'' = Inr (JObject [])"
    by (simp add: example_request_def example_cookie_json)
  have c: "cookie_json example_env (cookie example_request) ''providers'' = Inr (JObject [])"
    by (simp add: example_request_def example_cookie_json)
  have m: "error_message (Error ''Missing API key for provider'') = Some ''Missing API key for provider''"
    by (simp add: Error_def)
  have i: "str_includes ''Missing API key for provider'' ''API key''" by simp
  show ?thesis
    unfolding chatAction_after_reading [OF a b c, of ?ans]
    by (simp add: catch_block_api_key [OF m i]) (simp add: Error_def str_or_def)
qed

subsection \<open>The arguments of a tool call\<close>

text \<open>
  C8, as stated, fails: a tool call whose \<open>input\<close> is present but falsy (here the empty
  string, with no \<open>args\<close>) reaches the mediator with the empty object, not with its
  \<open>input\<close>, because \<^verbatim>\<open>||\<close> tests truthiness, not presence.
\<close>

theorem tool_args_counterexample:
  "input \<lparr>toolCallId = ''call_1'', toolName = ''search'', input = JString [], args = JUndefined\<rparr>
     \<noteq> JUndefined \<and>
   trace (onStepFinish
     [\<lparr>toolCallId = ''call_1'', toolName = ''search'', input = JString [], args = JUndefined\<rparr>]
     initial_state) = [ProcessToolCall ''call_1'' ''search'' (JObject [])] \<and>
   JObject [] \<noteq> JString []"
  by (simp add: onStepFinish_def tool_args_def js_or_def initial_state_def)

text \<open>
  C8, amended: for every tool call discovered at a step finish, in order, the mediator's
  \<^verbatim>\<open>processToolCall\<close> receives the call's id and name and an \<open>args\<close> field equal to the call's
  \<open>input\<close> property when that is truthy, otherwise to its \<open>args\<close> property when that is
  truthy, otherwise to an empty object. An object is always truthy, so the two shapes are
  treated alike for arguments that are objects.
\<close>

theorem onStepFinish_args:
  "mediated_calls (trace (onStepFinish toolCalls st)) =
     mediated_calls (trace st) @
     map (\<lambda>tc. (toolCallId tc, toolName tc,
                 if truthy (input tc) then input tc
                 else if truthy (args tc) then args tc
                 else JObject [])) toolCalls"
  by (simp add: onStepFinish_trace mediated_calls_def tool_args_def js_or_def comp_def
      cong: map_cong)

subsection \<open>The segment budget\<close>

text \<open>
  C2: if a segment finishes with reason \<open>length\<close> when the switch counter has reached
  \<open>MAX_RESPONSE_SEGMENTS\<close>, \<^verbatim>\<open>onFinish\<close> throws the error
  \<^verbatim>\<open>Cannot continue message: Maximum segments reached\<close> and writes nothing; the response
  fails with that error and no further model call is issued, whatever the provider would
  have answered.
\<close>

theorem budget_exhausted:
  assumes "finishReason f = ''length''" and "MAX_RESPONSE_SEGMENTS env \<le> switches st"
  shows "snd (onFinish env cl f st)
           = Thrown (Error ''Cannot continue message: Maximum segments reached'')
       \<and> trace (fst (onFinish env cl f st)) = trace st
       \<and> snd (after_call env cl (Streams steps (Some f) # rest) st)
           = Failed (Error ''Cannot continue message: Maximum segments reached'')
       \<and> stream_calls (trace (fst (after_call env cl (Streams steps (Some f) # rest) st)))
           = stream_calls (trace st)"
proof -
  have h: "onFinish env cl f s =
      (s\<lparr>cumulativeUsage := add_usage (finish_usage f) (cumulativeUsage s)\<rparr>,
       Thrown (Error ''Cannot continue message: Maximum segments reached''))"
    if "switches s = switches st" for s
    using assms that by (simp add: onFinish_def Let_def)
  have h1: "onFinish env cl f (fold onStepFinish steps (emit Merge st)) =
      ((fold onStepFinish steps (emit Merge st))
         \<lparr>cumulativeUsage := add_usage (finish_usage f)
             (cumulativeUsage (fold onStepFinish steps (emit Merge st)))\<rparr>,
       Thrown (Error ''Cannot continue message: Maximum segments reached''))"
    by (rule h) simp
  show ?thesis by (simp add: h h1)
qed

theorem budget_exhausted_witness:
  "finishReason (length_finish None) = ''length'' \<and>
   MAX_RESPONSE_SEGMENTS example_env \<le> switches (initial_state\<lparr>switches := 2\<rparr>) \<and>
   after_call example_env
     \<lparr>processedMessages = [hello], filteredFiles = None, summary = None, messageSliceId = 0\<rparr>
     [Streams [] (Some (length_finish None)), Streams [] (Some (stop_finish None))]
     (initial_state\<lparr>switches := 2\<rparr>)
   = (emit Merge (initial_state\<lparr>switches := 2\<rparr>),
      Failed (Error ''Cannot continue message: Maximum segments reached''))"
proof -
  have a: "finishReason (length_finish None) = ''length''" by (simp add: length_finish_def)
  have b: "MAX_RESPONSE_SEGMENTS example_env \<le> switches (initial_state\<lparr>switches := 2\<rparr>)"
    by (simp add: example_env_def)
  from budget_exhausted [OF a b, of "\<lparr>processedMessages = [hello], filteredFiles = None,
      summary = None, messageSliceId = 0\<rparr>" "[]" "[Streams [] (Some (stop_finish None))]"]
  have "snd (after_call example_env
     \<lparr>processedMessages = [hello], filteredFiles = None, summary = None, messageSliceId = 0\<rparr>
     [Streams [] (Some (length_finish None)), Streams [] (Some (stop_finish None))]
     (initial_state\<lparr>switches := 2\<rparr>))
       = Failed (Error ''Cannot continue message: Maximum segments reached'')"
    by simp
  moreover have "fst (after_call example_env
     \<lparr>processedMessages = [hello], filteredFiles = None, summary = None, messageSliceId = 0\<rparr>
     [Streams [] (Some (length_finish None)), Streams [] (Some (stop_finish None))]
     (initial_state\<lparr>switches := 2\<rparr>)) = emit Merge (initial_state\<lparr>switches := 2\<rparr>)"
    by (simp add: onFinish_def Let_def length_finish_def example_env_def add_usage_def
        initial_state_def emit_def)
  ultimately show ?thesis using a b by (simp add: prod_eq_iff)
qed

subsection \<open>The usage event\<close>


lemma after_call_usage_events:
  "after_call env cl outs st = (st', out) \<Longrightarrow>
   usage_events (trace st') =
     usage_events (trace st) @ (if out = Finished then [cumulativeUsage st'] else [])"
proof (induction env cl outs st arbitrary: st' out rule: after_call.induct)
  case (3 env cl steps fin rest st)
  let ?s1 = "fold onStepFinish steps (emit Merge st)"
  have u1: "usage_events (trace ?s1) = usage_events (trace st)" by simp
  show ?case
  proof (cases fin)
    case None
    with "3.prems" u1 show ?thesis by auto
  next
    case (Some f)
    obtain st2 r where r: "onFinish env cl f ?s1 = (st2, r)" by (cases "onFinish env cl f ?s1")
    show ?thesis
    proof (cases r)
      case Done
      with "3.prems" Some r onFinish_Done(1) [of env cl f ?s1 st2] u1 show ?thesis by auto
    next
      case Continue
      from onFinish_Continue(1) [of env cl f ?s1 st2] r Continue u1
      have "usage_events (trace st2) = usage_events (trace st)" by auto
      with "3.IH" [OF refl Some r [symmetric] Continue, of st' out] "3.prems" Some r Continue
      show ?thesis by simp
    next
      case (Thrown e)
      with "3.prems" Some r onFinish_Thrown(1) [of env cl f ?s1 st2 e] u1 show ?thesis by auto
    qed
  qed
qed auto


lemma after_call_Finished:
  "after_call env cl outs st = (st', Finished) \<Longrightarrow>
   (\<exists>pre. trace st' = pre @ [Write (UsageEvent (cumulativeUsage st')),
       Write (Progress ''response'' ''complete'' (progressCounter st' - 1) ''Response Generated'')])
   \<and> (\<exists>steps f. Streams steps (Some f) \<in> set outs \<and> finishReason f \<noteq> ''length'')"
proof (induction env cl outs st arbitrary: st' rule: after_call.induct)
  case (1 env cl st)
  then show ?case by simp
next
  case (2 env cl e rest st)
  then show ?case by simp
next
  case (3 env cl steps fin rest st)
  let ?s1 = "fold onStepFinish steps (emit Merge st)"
  show ?case
  proof (cases fin)
    case None
    with "3.prems" show ?thesis by simp
  next
    case (Some f)
    obtain st2 r where r: "onFinish env cl f ?s1 = (st2, r)" by (cases "onFinish env cl f ?s1")
    show ?thesis
    proof (cases r)
      case Done
      with "3.prems" Some r have eq: "st' = st2" by simp
      from onFinish_Done_iff [of env cl f ?s1] r Done have nl: "finishReason f \<noteq> ''length''"
        by simp
      have d: "onFinish env cl f ?s1 = (st', Done)" using r Done eq by simp
      have tr: "trace st' = trace ?s1 @ [Write (UsageEvent (cumulativeUsage st')),
          Write (Progress ''response'' ''complete'' (progressCounter st' - 1) ''Response Generated'')]"
        using onFinish_Done(1) [OF d] onFinish_Done(2) [OF d] by simp
      have p1: "\<exists>pre. trace st' = pre @ [Write (UsageEvent (cumulativeUsage st')),
          Write (Progress ''response'' ''complete'' (progressCounter st' - 1) ''Response Generated'')]"
        by (rule exI [where x = "trace ?s1"]) (rule tr)
      have "Streams steps (Some f) \<in> set (Streams steps fin # rest)" using Some by simp
      with nl have p2: "\<exists>steps' f'. Streams steps' (Some f') \<in> set (Streams steps fin # rest)
          \<and> finishReason f' \<noteq> ''length''"
        by blast
      from p1 p2 show ?thesis by (rule conjI)
    next
      case Continue
      from "3.prems" Some r Continue have ac: "after_call env cl rest st2 = (st', Finished)"
        by simp
      from "3.IH" [OF refl Some r [symmetric] Continue ac]
      have p1: "\<exists>pre. trace st' = pre @ [Write (UsageEvent (cumulativeUsage st')),
          Write (Progress ''response'' ''complete'' (progressCounter st' - 1) ''Response Generated'')]"
        and q: "\<exists>steps' f'. Streams steps' (Some f') \<in> set rest \<and> finishReason f' \<noteq> ''length''"
        by blast+
      from q obtain steps' f' where "Streams steps' (Some f') \<in> set rest"
        and "finishReason f' \<noteq> ''length''" by blast
      then have "Streams steps' (Some f') \<in> set (Streams steps fin # rest)
          \<and> finishReason f' \<noteq> ''length''" by simp
      then have p2: "\<exists>steps' f'. Streams steps' (Some f') \<in> set (Streams steps fin # rest)
          \<and> finishReason f' \<noteq> ''length''" by blast
      from p1 p2 show ?thesis by (rule conjI)
    next
      case (Thrown e)
      with "3.prems" Some r show ?thesis by simp
    qed
  qed
qed

lemma optimize_usage_events:
  "usage_events (trace (fst (optimize env ans pm st))) = usage_events (trace st)"
  by (simp add: optimize_def Let_def split: sum.splits prod.splits option.splits)


lemma execute_cases:
  "execute env ans b st = (st', out) \<Longrightarrow>
   (\<exists>s cl. after_call env cl (model_answers ans) s = (st', out)
      \<and> usage_events (trace s) = usage_events (trace st))
   \<or> (out \<noteq> Finished \<and> usage_events (trace st') = usage_events (trace st))"
proof -
  assume ex: "execute env ans b st = (st', out)"
  let ?pm = "processToolInvocations env (messages b)"
  let ?s1 = "emit (ProcessToolInvocations (messages b)) st"
  obtain s2 r where o: "optimize env ans ?pm ?s1 = (s2, r)" by (cases "optimize env ans ?pm ?s1")
  have u2: "usage_events (trace s2) = usage_events (trace st)"
    using optimize_usage_events [of env ans ?pm ?s1] o by simp
  show ?thesis
  proof (cases "filePaths env b \<noteq> [] \<and> contextOptimization b")
    case False
    with ex have "after_call env
        \<lparr>processedMessages = ?pm, filteredFiles = None, summary = None,
         messageSliceId = (if length ?pm > 3 then length ?pm - 3 else 0)\<rparr> (model_answers ans)
        (emit (StreamText \<lparr>call_messages = convertToCoreMessages env ?pm, call_contextFiles = None,
            call_summary = None,
            call_messageSliceId = (if length ?pm > 3 then length ?pm - 3 else 0)\<rparr>)
          (write_progress ''response'' ''in-progress'' ''Generating Response'' ?s1)) = (st', out)"
      by (auto simp: execute_def generate_def Let_def)
    then show ?thesis by (intro disjI1 exI conjI) (assumption, simp)
  next
    case True
    show ?thesis
    proof (cases r)
      case (Inl e)
      with ex True o u2 show ?thesis by (auto simp: execute_def Let_def)
    next
      case (Inr p)
      obtain summ fs where p: "p = (summ, fs)" by (cases p)
      let ?cl = "\<lparr>processedMessages = ?pm, filteredFiles = Some fs, summary = Some summ,
         messageSliceId = (if length ?pm > 3 then length ?pm - 3 else 0)\<rparr>"
      from ex True o Inr p have "after_call env ?cl (model_answers ans)
        (emit (StreamText \<lparr>call_messages = convertToCoreMessages env ?pm,
            call_contextFiles = Some fs, call_summary = Some summ,
            call_messageSliceId = (if length ?pm > 3 then length ?pm - 3 else 0)\<rparr>)
          (write_progress ''response'' ''in-progress'' ''Generating Response'' s2)) = (st', out)"
        by (auto simp: execute_def generate_def Let_def)
      then show ?thesis using u2 by (intro disjI1 exI conjI) (assumption, simp)
    qed
  qed
qed


lemma initial_usage_events [simp]: "usage_events (trace initial_state) = []"
  by (simp add: initial_state_def)


text \<open>
  C9: \<^verbatim>\<open>onFinish\<close> writes the usage event and the \<open>response\<close> progress-complete event if
  and only if the segment finishes with a reason other than \<open>length\<close>; a segment that
  finishes with \<open>length\<close> has its usage accumulated and writes neither. So the stream of a
  request carries a usage event only when its run finished, and then exactly one: the
  cumulative totals, written after the last segment and followed by the progress-complete
  event, that segment being one that finished with a reason other than \<open>length\<close>.
\<close>


theorem usage_event_iff_not_length:
  "usage_events (trace (fst (onFinish env cl f st)))
     = usage_events (trace st) @
       (if finishReason f \<noteq> ''length'' then [add_usage (finish_usage f) (cumulativeUsage st)] else [])
   \<and> filter is_response_complete (trace (fst (onFinish env cl f st)))
     = filter is_response_complete (trace st) @
       (if finishReason f \<noteq> ''length''
        then [Write (Progress ''response'' ''complete'' (progressCounter st) ''Response Generated'')]
        else [])
   \<and> cumulativeUsage (fst (onFinish env cl f st)) = add_usage (finish_usage f) (cumulativeUsage st)
   \<and> (execute env ans b initial_state = (st', out) \<longrightarrow>
        usage_events (trace st') = (if out = Finished then [cumulativeUsage st'] else [])
        \<and> (out = Finished \<longrightarrow>
             (\<exists>pre. trace st' = pre @ [Write (UsageEvent (cumulativeUsage st')),
                 Write (Progress ''response'' ''complete'' (progressCounter st' - 1)
                          ''Response Generated'')])
             \<and> (\<exists>steps f. Streams steps (Some f) \<in> set (model_answers ans)
                    \<and> finishReason f \<noteq> ''length'')))"
proof -
  have a: "usage_events (trace (fst (onFinish env cl f st)))
     = usage_events (trace st) @
       (if finishReason f \<noteq> ''length'' then [add_usage (finish_usage f) (cumulativeUsage st)] else [])"
    by (simp add: onFinish_def Let_def split: option.splits sum.splits prod.splits)
  have b: "filter is_response_complete (trace (fst (onFinish env cl f st)))
     = filter is_response_complete (trace st) @
       (if finishReason f \<noteq> ''length''
        then [Write (Progress ''response'' ''complete'' (progressCounter st) ''Response Generated'')]
        else [])"
    by (simp add: onFinish_def Let_def split: option.splits sum.splits prod.splits)
  have c: "usage_events (trace st') = (if out = Finished then [cumulativeUsage st'] else [])
        \<and> (out = Finished \<longrightarrow>
             (\<exists>pre. trace st' = pre @ [Write (UsageEvent (cumulativeUsage st')),
                 Write (Progress ''response'' ''complete'' (progressCounter st' - 1)
                          ''Response Generated'')])
             \<and> (\<exists>steps f. Streams steps (Some f) \<in> set (model_answers ans)
                    \<and> finishReason f \<noteq> ''length''))"
    if ex: "execute env ans b initial_state = (st', out)"
  proof -
    from execute_cases [OF ex] show ?thesis
    proof
      assume "\<exists>s cl. after_call env cl (model_answers ans) s = (st', out)
          \<and> usage_events (trace s) = usage_events (trace initial_state)"
      then obtain s cl' where ac: "after_call env cl' (model_answers ans) s = (st', out)"
        and u: "usage_events (trace s) = []" by auto
      from after_call_usage_events [OF ac] u
      have 1: "usage_events (trace st') = (if out = Finished then [cumulativeUsage st'] else [])"
        by simp
      show ?thesis
      proof (cases "out = Finished")
        case True
        with ac after_call_Finished [of env cl' "model_answers ans" s st'] 1 show ?thesis
          by simp
      next
        case False
        with 1 show ?thesis by simp
      qed
    next
      assume "out \<noteq> Finished \<and> usage_events (trace st') = usage_events (trace initial_state)"
      then show ?thesis by simp
    qed
  qed
  from a b c onFinish_usage [of env cl f st] show ?thesis by blast
qed

lemma example_usage_counts:
  "or_zero (promptTokens_of example_usage) = 5"
  "or_zero (completionTokens_of example_usage) = 7"
  "or_zero (totalTokens_of example_usage) = 12"
  by (simp_all add: example_usage_def promptTokens_of_def completionTokens_of_def
      totalTokens_of_def has_prop_def get_prop_def or_zero_def js_plus_def)

lemma two_segments_run:
  "snd (execute example_env two_segments example_body initial_state) = Finished"
  "cumulativeUsage (fst (execute example_env two_segments example_body initial_state))
     = \<lparr>completionTokens = 14, promptTokens = 10, totalTokens = 24\<rparr>"
  by (simp_all add: execute_def generate_def filePaths_def example_env_def two_segments_def
      example_answers_def example_body_def onFinish_def Let_def length_finish_def stop_finish_def
      lastUserMessage_def hello_def add_usage_def example_usage_counts initial_state_def)

theorem usage_event_iff_not_length_witness:
  "snd (execute example_env two_segments example_body initial_state) = Finished \<and>
   usage_events (trace (fst (execute example_env two_segments example_body initial_state)))
     = [\<lparr>completionTokens = 14, promptTokens = 10, totalTokens = 24\<rparr>]"
proof -
  let ?r = "execute example_env two_segments example_body initial_state"
  have e: "?r = (fst ?r, snd ?r)" by simp
  from usage_event_iff_not_length [where env = example_env and ans = two_segments
      and b = example_body and st' = "fst ?r" and out = "snd ?r"] e
  have "usage_events (trace (fst ?r)) = (if snd ?r = Finished then [cumulativeUsage (fst ?r)] else [])"
    by blast
  then show ?thesis by (simp add: two_segments_run)
qed

subsection \<open>The cumulative usage\<close>

lemma fold_add_usage:
  "fold add_usage uos c =
     \<lparr>completionTokens = completionTokens c + completionTokens (sum_usages (reported uos)),
      promptTokens = promptTokens c + promptTokens (sum_usages (reported uos)),
      totalTokens = totalTokens c + totalTokens (sum_usages (reported uos))\<rparr>"
proof (induction uos arbitrary: c)
  case Nil
  show ?case by (simp add: reported_def sum_usages_def)
next
  case (Cons uo uos)
  show ?case
  proof (cases uo)
    case None
    with Cons [of c] show ?thesis by (simp add: reported_def add_usage_def)
  next
    case (Some u)
    with Cons [of "add_usage (Some u) c"] show ?thesis
      by (simp add: reported_def add_usage_def sum_usages_def)
  qed
qed

lemma after_call_finished_usage:
  assumes "\<forall>x\<in>set segs. finishReason (snd x) = ''length''"
    and "finishReason fn \<noteq> ''length''"
    and "after_call env cl
           (map (\<lambda>x. Streams (fst x) (Some (snd x))) segs @ Streams sn (Some fn) # unused) st
         = (st', Finished)"
  shows "cumulativeUsage st' =
     fold add_usage (map (\<lambda>x. finish_usage (snd x)) segs @ [finish_usage fn]) (cumulativeUsage st)"
  using assms
proof (induction segs arbitrary: st)
  case Nil
  let ?s1 = "fold onStepFinish sn (emit Merge st)"
  obtain st2 r where r: "onFinish env cl fn ?s1 = (st2, r)" by (cases "onFinish env cl fn ?s1")
  from onFinish_Done_iff [of env cl fn ?s1] r Nil.prems(2) have d: "r = Done" by simp
  with Nil.prems(3) r have "st' = st2" by simp
  with onFinish_usage [of env cl fn ?s1] r show ?case by simp
next
  case (Cons x segs)
  let ?s1 = "fold onStepFinish (fst x) (emit Merge st)"
  obtain st2 r where r: "onFinish env cl (snd x) ?s1 = (st2, r)"
    by (cases "onFinish env cl (snd x) ?s1")
  from onFinish_Done_iff [of env cl "snd x" ?s1] r Cons.prems(1) have nd: "r \<noteq> Done" by simp
  have u2: "cumulativeUsage st2 = add_usage (finish_usage (snd x)) (cumulativeUsage st)"
    using onFinish_usage [of env cl "snd x" ?s1] r by simp
  show ?case
  proof (cases r)
    case Done
    with nd show ?thesis by simp
  next
    case (Thrown e)
    with Cons.prems(3) r show ?thesis by simp
  next
    case Continue
    with Cons.prems(3) r have ac: "after_call env cl
        (map (\<lambda>x. Streams (fst x) (Some (snd x))) segs @ Streams sn (Some fn) # unused) st2
        = (st', Finished)" by simp
    from Cons.prems(1) have l: "\<forall>x\<in>set segs. finishReason (snd x) = ''length''" by simp
    from Cons.IH [OF l Cons.prems(2) ac] u2 show ?thesis by simp
  qed
qed

lemma optimize_usage:
  assumes "optimize env ans pm st = (st2, Inr (summ, fs))"
  shows "cumulativeUsage st2 =
     fold add_usage
       ((case summary_answer ans of Inl e \<Rightarrow> [] | Inr (s, u) \<Rightarrow> [u]) @
        (case select_answer ans of Inl e \<Rightarrow> [] | Inr (fs, u) \<Rightarrow> [u]))
       (cumulativeUsage st)"
  using assms
  by (auto simp: optimize_def Let_def split: sum.splits prod.splits option.splits)

lemma execute_Finished:
  assumes "execute env ans b st = (st', Finished)"
  shows "\<exists>s cl. after_call env cl (model_answers ans) s = (st', Finished)
      \<and> usage_events (trace s) = usage_events (trace st)
      \<and> cumulativeUsage s = fold add_usage (optimizer_usages env ans b) (cumulativeUsage st)"
proof -
  let ?pm = "processToolInvocations env (messages b)"
  let ?s1 = "emit (ProcessToolInvocations (messages b)) st"
  let ?id = "if length ?pm > 3 then length ?pm - 3 else 0"
  show ?thesis
  proof (cases "filePaths env b \<noteq> [] \<and> contextOptimization b")
    case False
    let ?cl = "\<lparr>processedMessages = ?pm, filteredFiles = None, summary = None,
         messageSliceId = ?id\<rparr>"
    let ?s = "emit (StreamText \<lparr>call_messages = convertToCoreMessages env ?pm,
            call_contextFiles = None, call_summary = None, call_messageSliceId = ?id\<rparr>)
          (write_progress ''response'' ''in-progress'' ''Generating Response'' ?s1)"
    from assms False have "after_call env ?cl (model_answers ans) ?s = (st', Finished)"
      by (auto simp: execute_def generate_def Let_def)
    moreover have "usage_events (trace ?s) = usage_events (trace st)" by simp
    moreover have "cumulativeUsage ?s
        = fold add_usage (optimizer_usages env ans b) (cumulativeUsage st)"
      using False by (auto simp: optimizer_usages_def)
    ultimately show ?thesis by blast
  next
    case True
    obtain s2 r where o: "optimize env ans ?pm ?s1 = (s2, r)" by (cases "optimize env ans ?pm ?s1")
    have u2: "usage_events (trace s2) = usage_events (trace st)"
      using optimize_usage_events [of env ans ?pm ?s1] o by simp
    show ?thesis
    proof (cases r)
      case (Inl e)
      with assms True o show ?thesis by (auto simp: execute_def Let_def)
    next
      case (Inr p)
      obtain summ fs where p: "p = (summ, fs)" by (cases p)
      let ?cl = "\<lparr>processedMessages = ?pm, filteredFiles = Some fs, summary = Some summ,
         messageSliceId = ?id\<rparr>"
      let ?s = "emit (StreamText \<lparr>call_messages = convertToCoreMessages env ?pm,
            call_contextFiles = Some fs, call_summary = Some summ, call_messageSliceId = ?id\<rparr>)
          (write_progress ''response'' ''in-progress'' ''Generating Response'' s2)"
      from assms True o Inr p have "after_call env ?cl (model_answers ans) ?s = (st', Finished)"
        by (auto simp: execute_def generate_def Let_def)
      moreover have "usage_events (trace ?s) = usage_events (trace st)" using u2 by simp
      moreover have "cumulativeUsage ?s
          = fold add_usage (optimizer_usages env ans b) (cumulativeUsage st)"
        using True optimize_usage [of env ans ?pm ?s1 s2 summ fs] o Inr p
        by (simp add: optimizer_usages_def)
      ultimately show ?thesis by blast
    qed
  qed
qed

text \<open>
  C3 does not hold of the code: a generation call that reports the prompt and completion
  counts 5 and 7 and a \<open>totalTokens\<close> property holding \<^verbatim>\<open>undefined\<close>, as the library's
  type allows, adds 0 to the total. The usage event is then \<open>{7, 5, 0}\<close>: the total is
  neither the reported field taken verbatim, which is no number, nor the sum of prompt and
  completion, 12, which the same expression computes when the property is absent.
\<close>

theorem undefined_total_counts_zero:
  "usage_events (trace (fst (execute example_env
      (example_answers [Streams [] (Some (stop_finish (Some undefined_total)))])
      example_body initial_state)))
     = [\<lparr>completionTokens = 7, promptTokens = 5, totalTokens = 0\<rparr>] \<and>
   has_prop undefined_total ''totalTokens'' \<and>
   get_prop undefined_total ''totalTokens'' = Undef \<and>
   js_plus (promptTokens_of undefined_total) (completionTokens_of undefined_total) = Num 12"
  by (simp add: execute_def generate_def filePaths_def example_env_def
      example_answers_def example_body_def onFinish_def Let_def stop_finish_def
      add_usage_def initial_state_def undefined_total_def promptTokens_of_def
      completionTokens_of_def totalTokens_of_def has_prop_def get_prop_def or_zero_def
      js_plus_def)

text \<open>
  What the accumulation does on every finished response: the usage event is the
  componentwise sum, over the sub-calls that reported a usage object (the summary call and
  the context-selection call when the optimization ran, and each generation segment), of
  the counts as \<open>promptTokens_of\<close>, \<open>completionTokens_of\<close> and \<open>totalTokens_of\<close> read them,
  each through \<^verbatim>\<open>|| 0\<close>. No sub-call is dropped and none is counted twice.
\<close>

lemma final_usage_is_sum:
  assumes "execute env ans b initial_state = (st, Finished)"
    and "model_answers ans =
           map (\<lambda>(steps, f). Streams steps (Some f)) segs @ Streams steps_n (Some f_n) # unused"
    and "\<forall>(steps, f)\<in>set segs. finishReason f = ''length''"
    and "finishReason f_n \<noteq> ''length''"
  shows "usage_events (trace st) =
     [sum_usages (reported (optimizer_usages env ans b
                            @ map (\<lambda>(steps, f). finish_usage f) segs @ [finish_usage f_n]))]"
proof -
  from execute_Finished [OF assms(1)] obtain s cl where
    ac: "after_call env cl (model_answers ans) s = (st, Finished)"
    and u: "usage_events (trace s) = usage_events (trace initial_state)"
    and c: "cumulativeUsage s
        = fold add_usage (optimizer_usages env ans b) (cumulativeUsage initial_state)"
    by blast
  have shape: "model_answers ans =
      map (\<lambda>x. Streams (fst x) (Some (snd x))) segs @ Streams steps_n (Some f_n) # unused"
    using assms(2) by (simp add: case_prod_unfold)
  have len: "\<forall>x\<in>set segs. finishReason (snd x) = ''length''"
    using assms(3) by (simp add: case_prod_unfold)
  from after_call_finished_usage [OF len assms(4) ac [unfolded shape]]
  have "cumulativeUsage st =
      fold add_usage (map (\<lambda>x. finish_usage (snd x)) segs @ [finish_usage f_n]) (cumulativeUsage s)" .
  with c have "cumulativeUsage st =
      fold add_usage (optimizer_usages env ans b
                      @ map (\<lambda>x. finish_usage (snd x)) segs @ [finish_usage f_n])
        (cumulativeUsage initial_state)"
    by simp
  then have cu: "cumulativeUsage st =
      sum_usages (reported (optimizer_usages env ans b
                      @ map (\<lambda>(steps, f). finish_usage f) segs @ [finish_usage f_n]))"
    by (simp only: fold_add_usage case_prod_unfold) (simp add: initial_state_def sum_usages_def)
  from after_call_usage_events [OF ac] u have "usage_events (trace st) = [cumulativeUsage st]"
    by simp
  with cu show ?thesis by simp
qed

lemma project_run:
  "execute example_env two_segments project_body initial_state
     = (fst (execute example_env two_segments project_body initial_state), Finished)"
  "sum_usages (reported (optimizer_usages example_env two_segments project_body
       @ map (\<lambda>(steps, f). finish_usage f) [([], length_finish (Some example_usage))]
       @ [finish_usage (stop_finish (Some example_usage))]))
     = \<lparr>completionTokens = 20, promptTokens = 41, totalTokens = 61\<rparr>"
proof -
  have "snd (execute example_env two_segments project_body initial_state) = Finished"
    by (simp add: execute_def generate_def optimize_def filePaths_def example_env_def
        two_segments_def example_answers_def project_body_def onFinish_def Let_def
        length_finish_def stop_finish_def lastUserMessage_def hello_def initial_state_def)
  then show "execute example_env two_segments project_body initial_state
     = (fst (execute example_env two_segments project_body initial_state), Finished)"
    by (simp add: prod_eq_iff)
  show "sum_usages (reported (optimizer_usages example_env two_segments project_body
       @ map (\<lambda>(steps, f). finish_usage f) [([], length_finish (Some example_usage))]
       @ [finish_usage (stop_finish (Some example_usage))]))
     = \<lparr>completionTokens = 20, promptTokens = 41, totalTokens = 61\<rparr>"
    by (simp add: optimizer_usages_def filePaths_def example_env_def two_segments_def
        example_answers_def project_body_def length_finish_def stop_finish_def reported_def
        sum_usages_def example_usage_def promptTokens_of_def completionTokens_of_def
        totalTokens_of_def has_prop_def get_prop_def or_zero_def js_plus_def)
qed

lemma final_usage_example:
  "usage_events (trace (fst (execute example_env two_segments project_body initial_state)))
     = [\<lparr>completionTokens = 20, promptTokens = 41, totalTokens = 61\<rparr>]"
proof -
  have shape: "model_answers two_segments =
      map (\<lambda>(steps, f). Streams steps (Some f)) [([], length_finish (Some example_usage))]
      @ Streams [] (Some (stop_finish (Some example_usage))) # []"
    by (simp add: two_segments_def example_answers_def)
  have len: "\<forall>(steps, f)\<in>set [([]::tool_call list list, length_finish (Some example_usage))].
      finishReason f = ''length''"
    by (simp add: length_finish_def)
  have stop: "finishReason (stop_finish (Some example_usage)) \<noteq> ''length''"
    by (simp add: stop_finish_def)
  from final_usage_is_sum [OF project_run(1) shape len stop] show ?thesis
    by (simp only: project_run(2))
qed

subsection \<open>Skipping the context optimization\<close>

lemma onFinish_ext:
  "\<exists>ext. trace (fst (onFinish env cl f st)) = trace st @ ext \<and> filter is_context_event ext = []"
proof -
  obtain st2 r where r: "onFinish env cl f st = (st2, r)" by (cases "onFinish env cl f st")
  show ?thesis
  proof (cases r)
    case Done
    from onFinish_Done(1) [OF r [unfolded Done]] r
    have "trace (fst (onFinish env cl f st)) = trace st @ [Write (UsageEvent (cumulativeUsage st2)),
            Write (Progress ''response'' ''complete'' (progressCounter st) ''Response Generated'')]
        \<and> filter is_context_event [Write (UsageEvent (cumulativeUsage st2)),
            Write (Progress ''response'' ''complete'' (progressCounter st) ''Response Generated'')] = []"
      by simp
    then show ?thesis by (rule exI [where x = "[Write (UsageEvent (cumulativeUsage st2)),
            Write (Progress ''response'' ''complete'' (progressCounter st) ''Response Generated'')]"])
  next
    case Continue
    from onFinish_Continue(1) [OF r [unfolded Continue]] obtain c
      where "trace st2 = trace st @ [StreamText c]" ..
    with r have "trace (fst (onFinish env cl f st)) = trace st @ [StreamText c]
        \<and> filter is_context_event [StreamText c] = []" by simp
    then show ?thesis by (rule exI [where x = "[StreamText c]"])
  next
    case (Thrown e)
    from onFinish_Thrown(1) [OF r [unfolded Thrown]] r
    have "trace (fst (onFinish env cl f st)) = trace st @ [] \<and> filter is_context_event [] = []"
      by simp
    then show ?thesis by (rule exI [where x = "[]"])
  qed
qed

lemma after_call_ext:
  "\<exists>ext. trace (fst (after_call env cl outs st)) = trace st @ ext
       \<and> filter is_context_event ext = []"
proof (induction env cl outs st rule: after_call.induct)
  case (1 env cl st)
  have "trace (fst (after_call env cl [] st)) = trace st @ [] \<and> filter is_context_event [] = []"
    by simp
  then show ?case by (rule exI [where x = "[]"])
next
  case (2 env cl e rest st)
  have "trace (fst (after_call env cl (Rejects e # rest) st)) = trace st @ []
      \<and> filter is_context_event [] = []"
    by simp
  then show ?case by (rule exI [where x = "[]"])
next
  case (3 env cl steps fin rest st)
  let ?s1 = "fold onStepFinish steps (emit Merge st)"
  from steps_trace [of steps "emit Merge st"] obtain tcs where
    t1: "trace ?s1 = trace st @ Merge #
        map (\<lambda>tc. ProcessToolCall (toolCallId tc) (toolName tc) (tool_args tc)) tcs"
    by auto
  let ?e1 = "Merge # map (\<lambda>tc. ProcessToolCall (toolCallId tc) (toolName tc) (tool_args tc)) tcs"
  have f1: "filter is_context_event ?e1 = []" by simp
  show ?case
  proof (cases fin)
    case None
    with t1 f1 have "trace (fst (after_call env cl (Streams steps fin # rest) st)) = trace st @ ?e1
        \<and> filter is_context_event ?e1 = []" by simp
    then show ?thesis by (rule exI [where x = ?e1])
  next
    case (Some f)
    obtain st2 r where r: "onFinish env cl f ?s1 = (st2, r)" by (cases "onFinish env cl f ?s1")
    from onFinish_ext [of env cl f ?s1] r obtain e2 where
      t2: "trace st2 = trace ?s1 @ e2" and f2: "filter is_context_event e2 = []" by auto
    show ?thesis
    proof (cases r)
      case Continue
      from "3.IH" [OF refl Some r [symmetric] Continue] obtain e3 where
        t3: "trace (fst (after_call env cl rest st2)) = trace st2 @ e3"
        and f3: "filter is_context_event e3 = []" by blast
      from Some r Continue t1 t2 t3 f1 f2 f3
      have "trace (fst (after_call env cl (Streams steps fin # rest) st)) = trace st @ (?e1 @ e2 @ e3)
          \<and> filter is_context_event (?e1 @ e2 @ e3) = []" by simp
      then show ?thesis by (rule exI [where x = "?e1 @ e2 @ e3"])
    next
      case Done
      with Some r t1 t2 f1 f2
      have "trace (fst (after_call env cl (Streams steps fin # rest) st)) = trace st @ (?e1 @ e2)
          \<and> filter is_context_event (?e1 @ e2) = []" by simp
      then show ?thesis by (rule exI [where x = "?e1 @ e2"])
    next
      case (Thrown e)
      with Some r t1 t2 f1 f2
      have "trace (fst (after_call env cl (Streams steps fin # rest) st)) = trace st @ (?e1 @ e2)
          \<and> filter is_context_event (?e1 @ e2) = []" by simp
      then show ?thesis by (rule exI [where x = "?e1 @ e2"])
    qed
  qed
qed

text \<open>
  C4: for every request with \<open>contextOptimization\<close> false or no file path to consider (an
  empty file set), no progress event labelled \<open>summary\<close> or \<open>context\<close> and no chat summary
  or code context event is written, and the first model call receives the whole message
  list, as the mediator's \<^verbatim>\<open>processToolInvocations\<close> returned it and converted to core
  messages, with no summary and no selected files.
\<close>

theorem optimization_skipped:
  assumes "\<not> contextOptimization b \<or> filePaths env b = []"
  shows "filter is_context_event (trace (fst (execute env ans b initial_state))) = []
     \<and> (\<exists>rest. trace (fst (execute env ans b initial_state)) =
          [ProcessToolInvocations (messages b),
           Write (Progress ''response'' ''in-progress'' 1 ''Generating Response''),
           StreamText
             \<lparr>call_messages = convertToCoreMessages env (processToolInvocations env (messages b)),
              call_contextFiles = None,
              call_summary = None,
              call_messageSliceId =
                (if length (processToolInvocations env (messages b)) > 3
                 then length (processToolInvocations env (messages b)) - 3 else 0)\<rparr>] @ rest)"
proof -
  let ?pm = "processToolInvocations env (messages b)"
  let ?id = "if length ?pm > 3 then length ?pm - 3 else 0"
  let ?cl = "\<lparr>processedMessages = ?pm, filteredFiles = None, summary = None, messageSliceId = ?id\<rparr>"
  let ?call = "StreamText \<lparr>call_messages = convertToCoreMessages env ?pm,
      call_contextFiles = None, call_summary = None, call_messageSliceId = ?id\<rparr>"
  let ?s = "emit ?call (write_progress ''response'' ''in-progress'' ''Generating Response''
      (emit (ProcessToolInvocations (messages b)) initial_state))"
  let ?head = "[ProcessToolInvocations (messages b),
      Write (Progress ''response'' ''in-progress'' 1 ''Generating Response''), ?call]"
  have ex: "execute env ans b initial_state = after_call env ?cl (model_answers ans) ?s"
    using assms by (auto simp: execute_def generate_def Let_def)
  have ts: "trace ?s = ?head" by (simp add: initial_state_def)
  from after_call_ext [of env ?cl "model_answers ans" ?s] obtain ext where
    t: "trace (fst (after_call env ?cl (model_answers ans) ?s)) = trace ?s @ ext"
    and f: "filter is_context_event ext = []" by blast
  from t ts ex have tr: "trace (fst (execute env ans b initial_state)) = ?head @ ext" by simp
  have p1: "filter is_context_event (trace (fst (execute env ans b initial_state))) = []"
    using f by (simp add: tr)
  have p2: "\<exists>rest. trace (fst (execute env ans b initial_state)) = ?head @ rest"
    by (rule exI [where x = ext]) (rule tr)
  from p1 p2 show ?thesis by (rule conjI)
qed

theorem optimization_skipped_witness:
  "filePaths example_env example_body = [] \<and>
   filter is_context_event (trace (fst (execute example_env two_segments example_body initial_state)))
     = [] \<and>
   hd (stream_calls (trace (fst (execute example_env two_segments example_body initial_state))))
     = \<lparr>call_messages = [\<lparr>role = ''user'', content = Parts [TextPart ''hello'']\<rparr>],
        call_contextFiles = None, call_summary = None, call_messageSliceId = 0\<rparr>"
proof -
  have h: "\<not> contextOptimization example_body \<or> filePaths example_env example_body = []"
    by (simp add: filePaths_def example_env_def example_body_def)
  from optimization_skipped [OF h, of two_segments] obtain rest where
    f: "filter is_context_event
          (trace (fst (execute example_env two_segments example_body initial_state))) = []"
    and t: "trace (fst (execute example_env two_segments example_body initial_state)) =
          [ProcessToolInvocations (messages example_body),
           Write (Progress ''response'' ''in-progress'' 1 ''Generating Response''),
           StreamText
             \<lparr>call_messages = convertToCoreMessages example_env
                 (processToolInvocations example_env (messages example_body)),
              call_contextFiles = None,
              call_summary = None,
              call_messageSliceId =
                (if length (processToolInvocations example_env (messages example_body)) > 3
                 then length (processToolInvocations example_env (messages example_body)) - 3
                 else 0)\<rparr>] @ rest"
    by blast
  have "hd (stream_calls (trace (fst (execute example_env two_segments example_body initial_state))))
     = \<lparr>call_messages = [\<lparr>role = ''user'', content = Parts [TextPart ''hello'']\<rparr>],
        call_contextFiles = None, call_summary = None, call_messageSliceId = 0\<rparr>"
    by (simp only: t) (simp add: example_env_def example_body_def hello_def)
  moreover have "filePaths example_env example_body = []"
    by (simp add: filePaths_def example_env_def example_body_def)
  ultimately show ?thesis using f by simp
qed

subsection \<open>Continuation\<close>

text \<open>The message that \<open>lastUserMessage\<close> returns is the last one whose role is \<open>user\<close>.\<close>

lemma last_filter_split:
  "filter P xs \<noteq> [] \<Longrightarrow>
   \<exists>before after. xs = before @ last (filter P xs) # after \<and> P (last (filter P xs))
      \<and> filter P after = []"
proof (induction xs rule: rev_induct)
  case Nil
  then show ?case by simp
next
  case (snoc x xs)
  show ?case
  proof (cases "P x")
    case True
    then have "xs @ [x] = xs @ last (filter P (xs @ [x])) # [] \<and> P (last (filter P (xs @ [x])))
        \<and> filter P [] = []" by simp
    then show ?thesis by blast
  next
    case False
    with snoc.prems have ne: "filter P xs \<noteq> []" by simp
    from snoc.IH [OF ne] obtain before after where
      "xs = before @ last (filter P xs) # after" "P (last (filter P xs))" "filter P after = []"
      by blast
    with False have "xs @ [x] = before @ last (filter P (xs @ [x])) # (after @ [x])
        \<and> P (last (filter P (xs @ [x]))) \<and> filter P (after @ [x]) = []" by simp
    then show ?thesis by blast
  qed
qed

lemma lastUserMessage_Some:
  "lastUserMessage msgs = Some m \<longleftrightarrow>
     (\<exists>before after. msgs = before @ m # after \<and> msg_role m = ''user''
        \<and> filter (\<lambda>x. msg_role x = ''user'') after = [])"
proof
  assume "lastUserMessage msgs = Some m"
  then have ne: "filter (\<lambda>x. msg_role x = ''user'') msgs \<noteq> []"
    and l: "last (filter (\<lambda>x. msg_role x = ''user'') msgs) = m"
    by (auto simp: lastUserMessage_def split: list.splits)
  from last_filter_split [OF ne] l
  show "\<exists>before after. msgs = before @ m # after \<and> msg_role m = ''user''
        \<and> filter (\<lambda>x. msg_role x = ''user'') after = []" by simp
next
  assume "\<exists>before after. msgs = before @ m # after \<and> msg_role m = ''user''
        \<and> filter (\<lambda>x. msg_role x = ''user'') after = []"
  then obtain before after where "msgs = before @ m # after" "msg_role m = ''user''"
    "filter (\<lambda>x. msg_role x = ''user'') after = []" by blast
  then have fl: "filter (\<lambda>x. msg_role x = ''user'') msgs
      = filter (\<lambda>x. msg_role x = ''user'') before @ [m]" by simp
  show "lastUserMessage msgs = Some m"
  proof (cases "filter (\<lambda>x. msg_role x = ''user'') msgs")
    case Nil
    with fl show ?thesis by simp
  next
    case (Cons u us)
    have "last (u # us) = m" using fl unfolding Cons [symmetric] by simp
    with Cons show ?thesis by (simp add: lastUserMessage_def)
  qed
qed

text \<open>
  What \<^verbatim>\<open>onFinish\<close> does on a continuation: it issues one model call, on the converted
  processed messages followed by the two new messages, with the model and the provider
  extracted from the last user message. The switch counter is left as it was.
\<close>

lemma onFinish_continuation:
  assumes "finishReason f = ''length''"
    and "switches st < MAX_RESPONSE_SEGMENTS env"
    and "lastUserMessage (processedMessages cl) = Some m"
    and "extractPropertiesFromMessage env
           (case convertToCoreMessages env [m] of [] \<Rightarrow> None | c # _ \<Rightarrow> Some c)
         = Inr (mdl, prov)"
  shows "snd (onFinish env cl f st) = Continue"
    and "trace (fst (onFinish env cl f st)) = trace st @
       [StreamText
          \<lparr>call_messages =
             convertToCoreMessages env (processedMessages cl) @
             [\<lparr>role = ''assistant'', content = Text (finish_text f)\<rparr>,
              \<lparr>role = ''user'', content = Text (continuation_directive env mdl prov)\<rparr>],
           call_contextFiles = filteredFiles cl,
           call_summary = summary cl,
           call_messageSliceId = messageSliceId cl\<rparr>]"
    and "switches (fst (onFinish env cl f st)) = switches st"
  using assms by (simp_all add: onFinish_def Let_def)

text \<open>
  C1 does not hold of the code in its last clause: a continuation does not increment the
  switch counter. With a budget of two segments, a response whose first three segments
  finish with \<open>length\<close> is continued three times and finishes; the counter is 0 at the end
  and the error of the exhausted budget is never raised.
\<close>

theorem continuation_leaves_switches:
  "MAX_RESPONSE_SEGMENTS example_env = 2 \<and>
   snd (execute example_env four_segments example_body initial_state) = Finished \<and>
   length (stream_calls (trace (fst (execute example_env four_segments example_body initial_state))))
     = 4 \<and>
   switches (fst (execute example_env four_segments example_body initial_state)) = 0"
  by (simp add: execute_def generate_def filePaths_def example_env_def four_segments_def
      example_answers_def example_body_def onFinish_def Let_def length_finish_def stop_finish_def
      lastUserMessage_def hello_def add_usage_def initial_state_def)

subsection \<open>The cookie parser\<close>

lemma split_on_not_Nil [simp]: "split_on sep s \<noteq> []"
  by (induction s) (auto split: list.splits)

lemma join_Cons_Cons: "ps \<noteq> [] \<Longrightarrow> join sep (p # ps) = p @ sep @ join sep ps"
  by (cases ps) simp_all

lemma join_cons_head: "join sep ((c # p) # ps) = c # join sep (p # ps)"
  by (cases ps) simp_all

lemma join_split_on: "join [sep] (split_on sep s) = s"
proof (induction s)
  case Nil
  show ?case by simp
next
  case (Cons c cs)
  show ?case
  proof (cases "c = sep")
    case True
    with Cons show ?thesis by (simp add: join_Cons_Cons)
  next
    case False
    obtain p ps where sp: "split_on sep cs = p # ps" by (cases "split_on sep cs") simp_all
    with Cons False show ?thesis by (simp add: join_cons_head)
  qed
qed

lemma hd_split_on: "hd (split_on sep s) = takeWhile (\<lambda>c. c \<noteq> sep) s"
proof (induction s)
  case Nil
  show ?case by simp
next
  case (Cons c cs)
  obtain p ps where sp: "split_on sep cs = p # ps" by (cases "split_on sep cs") simp_all
  with Cons show ?case by simp
qed

text \<open>Splitting at \<^verbatim>\<open>=\<close> and joining the rest again gives the name and the remainder.\<close>

lemma split_name_rest:
  assumes "split_on sep s = name # rest"
  shows "name = takeWhile (\<lambda>c. c \<noteq> sep) s"
    and "join [sep] rest = drop (Suc (length name)) s"
proof -
  from hd_split_on [of sep s] assms show n: "name = takeWhile (\<lambda>c. c \<noteq> sep) s" by simp
  from join_split_on [of sep s] assms have j: "join [sep] (name # rest) = s" by simp
  show "join [sep] rest = drop (Suc (length name)) s"
  proof (cases rest)
    case Nil
    with j show ?thesis by simp
  next
    case (Cons q qs)
    with j have "name @ [sep] @ join [sep] rest = s" by simp
    then have "drop (Suc (length name)) s = join [sep] rest"
      by (metis append.assoc append_eq_conv_conj length_append_singleton)
    then show ?thesis by simp
  qed
qed

lemma parse_item_entry:
  "parse_item item m =
     (if item_name item = [] then Inr m
      else (case cookie_entry item of
              None \<Rightarrow> Inl URIError
            | Some e \<Rightarrow> Inr (set_cookie m (fst e) (snd e))))"
proof -
  obtain name rest where sp: "split_on 61 item = name # rest"
    by (cases "split_on 61 item") simp_all
  from split_name_rest [OF sp] have n: "name = item_name item"
    and r: "join [61] rest = item_remainder item"
    by (simp_all add: item_name_def item_remainder_def)
  show ?thesis
    by (simp add: parse_item_def sp n [symmetric] r cookie_entry_def split: option.splits)
qed

lemma parse_items_entries:
  "parse_items items m =
     (case cookie_entries items of
        None \<Rightarrow> Inl URIError
      | Some es \<Rightarrow> Inr (fold (\<lambda>e m. set_cookie m (fst e) (snd e)) es m))"
proof (induction items arbitrary: m)
  case Nil
  show ?case by simp
next
  case (Cons item items)
  show ?case
    by (simp add: parse_item_entry Cons split: option.splits)
qed

lemma fold_set_cookie:
  "fold (\<lambda>e m. set_cookie m (fst e) (snd e)) es m =
     (\<lambda>k. if k = js ''__proto__'' then m k
          else (case map_of (rev es) k of None \<Rightarrow> m k | Some v \<Rightarrow> Some v))"
proof (induction es arbitrary: m)
  case Nil
  show ?case by (rule ext) simp
next
  case (Cons e es)
  let ?f = "\<lambda>e m. set_cookie m (fst e) (snd e)"
  let ?m = "set_cookie m (fst e) (snd e)"
  have "fold ?f (e # es) m = fold ?f es ?m" by simp
  also have "\<dots> = (\<lambda>k. if k = js ''__proto__'' then ?m k
          else (case map_of (rev es) k of None \<Rightarrow> ?m k | Some v \<Rightarrow> Some v))"
    by (rule Cons)
  also have "\<dots> = (\<lambda>k. if k = js ''__proto__'' then m k
          else (case map_of (rev (e # es)) k of None \<Rightarrow> m k | Some v \<Rightarrow> Some v))"
    by (rule ext) (simp add: set_cookie_def map_add_def split: option.splits)
  finally show ?case .
qed

text \<open>
  C10, as stated, fails on two counts. The parser is not total: a name or a value with a
  malformed escape makes \<^verbatim>\<open>decodeURIComponent\<close> throw. And an item named \<^verbatim>\<open>__proto__\<close>
  produces no entry.
\<close>

theorem parseCookies_counterexample:
  "parseCookies (js ''a=%'') = Inl URIError \<and>
   parseCookies (js ''__proto__=x'') = Inr Map.empty"
  by (simp add: parseCookies_def parse_item_def js_def trim_def is_ws_def
      decodeURIComponent_def hex_val_def set_cookie_def)

text \<open>
  C10, amended: \<^verbatim>\<open>parseCookies\<close> throws URIError when some item with a non-empty name has
  a name or a remainder that \<^verbatim>\<open>decodeURIComponent\<close> rejects, and otherwise returns the
  map in which each \<open>;\<close>-separated item whose name before the first \<^verbatim>\<open>=\<close> is non-empty
  has set the entry of its decoded name, unless that is \<^verbatim>\<open>__proto__\<close>, to the URI-decoded
  remainder of the item, further \<^verbatim>\<open>=\<close> characters preserved; an item with no \<^verbatim>\<open>=\<close> has
  the empty remainder; the items are processed from left to right, so the last occurrence
  of a name gives its value. Items, names and remainders are trimmed.
\<close>

theorem parseCookies_entries:
  "parseCookies cookieHeader =
     (case cookie_entries (cookie_items cookieHeader) of
        None \<Rightarrow> Inl URIError
      | Some es \<Rightarrow> Inr (\<lambda>k. if k = js ''__proto__'' then None else map_of (rev es) k))"
proof (cases "cookie_entries (cookie_items cookieHeader)")
  case None
  then show ?thesis
    by (simp add: parseCookies_def cookie_items_def parse_items_entries)
next
  case (Some es)
  have "fold (\<lambda>e m. set_cookie m (fst e) (snd e)) es Map.empty
      = (\<lambda>k. if k = js ''__proto__'' then None else map_of (rev es) k)"
    unfolding fold_set_cookie by (rule ext) (simp split: option.splits)
  with Some show ?thesis
    by (simp add: parseCookies_def cookie_items_def parse_items_entries)
qed

theorem parseCookies_entries_witness:
  "\<exists>m. parseCookies (js ''token=a=b; flag; token=%41%3D'') = Inr m \<and>
       m (js ''token'') = Some (js ''A='') \<and> m (js ''flag'') = Some []"
proof -
  have e: "cookie_entries (cookie_items (js ''token=a=b; flag; token=%41%3D''))
      = Some [(js ''token'', js ''a=b''), (js ''flag'', []), (js ''token'', js ''A='')]"
    by (simp add: cookie_items_def cookie_entry_def item_name_def item_remainder_def js_def
        trim_def is_ws_def decodeURIComponent_def hex_val_def)
  from parseCookies_entries [of "js ''token=a=b; flag; token=%41%3D''"] e
  have "parseCookies (js ''token=a=b; flag; token=%41%3D'') =
      Inr (\<lambda>k. if k = js ''__proto__'' then None
                else map_of (rev [(js ''token'', js ''a=b''), (js ''flag'', []),
                                  (js ''token'', js ''A='')]) k)"
    by simp
  then show ?thesis by (simp add: js_def)
qed

end
